theory Spec2Isabelle
  imports Complex_Main "HOL-Library.Log_Nat"
begin

section \<open>Data model\<close>

text \<open>
  The generator \<^verbatim>\<open>scripts/generate_tezza_v2.py\<close> builds a three-dimensional colour
  lookup table and pushes it through a chain of pointwise operators. The numpy array of
  shape \<open>(N, N, N, 3)\<close> is a list of planes (blue index), each a list of rows (green
  index), each a list of cells (red index); a cell is the triple of its three channels.
  The floating-point numbers of the source are modelled by the real numbers. In the
  operators every arithmetic operation is the exact one: each operator ends in a clamp,
  and what is proved of it does not depend on rounding. The tone curve has no clamp after
  it, so there the arithmetic of \<^verbatim>\<open>np.interp\<close> is rounded to double precision after
  every operation.
\<close>

datatype error = ZeroDivisionError | ValueError | IndexError

type_synonym rgb = "real \<times> real \<times> real"
type_synonym grid = "rgb list list list"

definition LUT_SIZE :: int where
  "LUT_SIZE = 33"

text \<open>\<^verbatim>\<open>np.clip(x, lo, hi)\<close> on one element.\<close>

definition clip :: "real \<Rightarrow> real \<Rightarrow> real \<Rightarrow> real" where
  "clip x lo hi = min (max x lo) hi"

fun map_rgb :: "(real \<Rightarrow> real) \<Rightarrow> rgb \<Rightarrow> rgb" where
  "map_rgb f (r, g, b) = (f r, f g, f b)"

definition clip_rgb :: "rgb \<Rightarrow> rgb" where
  "clip_rgb c = map_rgb (\<lambda>x. clip x 0 1) c"

text \<open>An elementwise numpy expression over the whole array acts on every cell.\<close>

definition map_grid :: "(rgb \<Rightarrow> rgb) \<Rightarrow> grid \<Rightarrow> grid" where
  "map_grid f lut = map (map (map f)) lut"

text \<open>\<^verbatim>\<open>0.2126 * lut[..., 0] + 0.7152 * lut[..., 1] + 0.0722 * lut[..., 2]\<close>\<close>

fun luminance :: "rgb \<Rightarrow> real" where
  "luminance (r, g, b) = 0.2126 * r + 0.7152 * g + 0.0722 * b"

definition in_unit :: "real \<Rightarrow> bool" where
  "in_unit x = (0 \<le> x \<and> x \<le> 1)"

fun cell_in_unit :: "rgb \<Rightarrow> bool" where
  "cell_in_unit (r, g, b) = (in_unit r \<and> in_unit g \<and> in_unit b)"

definition grid_in_unit :: "grid \<Rightarrow> bool" where
  "grid_in_unit lut = list_all (list_all (list_all cell_in_unit)) lut"

section \<open>Global tone operators\<close>

definition adjust_exposure_cell :: "real \<Rightarrow> rgb \<Rightarrow> rgb" where
  "adjust_exposure_cell ev c =
     (let factor = 2 powr ev
      in clip_rgb (map_rgb (\<lambda>x. x * factor) c))"

definition adjust_exposure :: "grid \<Rightarrow> real \<Rightarrow> grid" where
  "adjust_exposure lut ev = map_grid (adjust_exposure_cell ev) lut"

definition adjust_contrast_cell :: "real \<Rightarrow> rgb \<Rightarrow> rgb" where
  "adjust_contrast_cell amount c =
     (let t = amount / 100;
          mid = 0.5
      in clip_rgb
           (if t > 0 then map_rgb (\<lambda>x. mid + (x - mid) * (1 + t * 0.8)) c
            else map_rgb (\<lambda>x. mid + (x - mid) * (1 + t * 0.5)) c))"

definition adjust_contrast :: "grid \<Rightarrow> real \<Rightarrow> grid" where
  "adjust_contrast lut amount = map_grid (adjust_contrast_cell amount) lut"

definition adjust_saturation_cell :: "real \<Rightarrow> rgb \<Rightarrow> rgb" where
  "adjust_saturation_cell amount c =
     (let t = 1 + amount / 100;
          lum = luminance c
      in clip_rgb (map_rgb (\<lambda>x. lum + (x - lum) * t) c))"

definition adjust_saturation :: "grid \<Rightarrow> real \<Rightarrow> grid" where
  "adjust_saturation lut amount = map_grid (adjust_saturation_cell amount) lut"

definition adjust_vibrance_cell :: "real \<Rightarrow> rgb \<Rightarrow> rgb" where
  "adjust_vibrance_cell amount c =
     (let t = amount / 100;
          lum = luminance c
      in clip_rgb
           (map_rgb (\<lambda>x. let sat = \<bar>x - lum\<bar>;
                             boost = 1 + t * (1 - clip (sat * 3) 0 1)
                         in lum + (x - lum) * boost) c))"

definition adjust_vibrance :: "grid \<Rightarrow> real \<Rightarrow> grid" where
  "adjust_vibrance lut amount = map_grid (adjust_vibrance_cell amount) lut"

definition adjust_highlights_cell :: "real \<Rightarrow> rgb \<Rightarrow> rgb" where
  "adjust_highlights_cell amount c =
     (let t = amount / 100;
          lum = luminance c;
          mask = clip ((lum - 0.5) * 2) 0 1 powr 1.5
      in clip_rgb (map_rgb (\<lambda>x. x + mask * t * 0.3) c))"

definition adjust_highlights :: "grid \<Rightarrow> real \<Rightarrow> grid" where
  "adjust_highlights lut amount = map_grid (adjust_highlights_cell amount) lut"

definition adjust_shadows_cell :: "real \<Rightarrow> rgb \<Rightarrow> rgb" where
  "adjust_shadows_cell amount c =
     (let t = amount / 100;
          lum = luminance c;
          mask = clip (1 - lum * 2) 0 1 powr 1.5
      in clip_rgb (map_rgb (\<lambda>x. x + mask * t * 0.3) c))"

definition adjust_shadows :: "grid \<Rightarrow> real \<Rightarrow> grid" where
  "adjust_shadows lut amount = map_grid (adjust_shadows_cell amount) lut"

definition adjust_whites_cell :: "real \<Rightarrow> rgb \<Rightarrow> rgb" where
  "adjust_whites_cell amount c =
     (let t = amount / 100;
          lum = luminance c;
          mask = (clip ((lum - 0.7) * 3.3) 0 1)\<^sup>2
      in clip_rgb (map_rgb (\<lambda>x. x + mask * t * 0.25) c))"

definition adjust_whites :: "grid \<Rightarrow> real \<Rightarrow> grid" where
  "adjust_whites lut amount = map_grid (adjust_whites_cell amount) lut"

definition adjust_blacks_cell :: "real \<Rightarrow> rgb \<Rightarrow> rgb" where
  "adjust_blacks_cell amount c =
     (let t = amount / 100;
          lum = luminance c;
          mask = (clip (1 - lum * 3.3) 0 1)\<^sup>2
      in clip_rgb (map_rgb (\<lambda>x. x + mask * t * 0.2) c))"

definition adjust_blacks :: "grid \<Rightarrow> real \<Rightarrow> grid" where
  "adjust_blacks lut amount = map_grid (adjust_blacks_cell amount) lut"

fun adjust_temperature_cell :: "real \<Rightarrow> rgb \<Rightarrow> rgb" where
  "adjust_temperature_cell amount (r, g, b) =
     (let t = amount / 100
      in clip_rgb (r + t * 0.06, g + t * 0.015, b - t * 0.06))"

definition adjust_temperature :: "grid \<Rightarrow> real \<Rightarrow> grid" where
  "adjust_temperature lut amount = map_grid (adjust_temperature_cell amount) lut"

fun adjust_tint_cell :: "real \<Rightarrow> rgb \<Rightarrow> rgb" where
  "adjust_tint_cell amount (r, g, b) =
     (let t = amount / 100
      in clip_rgb (r + t * 0.02, g - t * 0.04, b + t * 0.02))"

definition adjust_tint :: "grid \<Rightarrow> real \<Rightarrow> grid" where
  "adjust_tint lut amount = map_grid (adjust_tint_cell amount) lut"

definition lift_blacks_cell :: "real \<Rightarrow> rgb \<Rightarrow> rgb" where
  "lift_blacks_cell amount c = clip_rgb (map_rgb (\<lambda>x. amount + x * (1 - amount)) c)"

definition lift_blacks :: "grid \<Rightarrow> real \<Rightarrow> grid" where
  "lift_blacks lut amount = map_grid (lift_blacks_cell amount) lut"

section \<open>Hue-range selective adjustment\<close>

text \<open>The \<^verbatim>\<open>%\<close> of numpy on floats: the remainder has the sign of the divisor.\<close>

definition py_mod :: "real \<Rightarrow> real \<Rightarrow> real" where
  "py_mod x m = x - m * of_int \<lfloor>x / m\<rfloor>"

text \<open>
  The three masked assignments to \<^verbatim>\<open>hue\<close> run in the order red, green, blue, so
  where two channels tie for the maximum the later assignment stands.
\<close>

fun hue_of :: "rgb \<Rightarrow> real" where
  "hue_of (r, g, b) =
     (let cmax = max (max r g) b;
          cmin = min (min r g) b;
          delta = cmax - cmin;
          mask_r = (cmax = r \<and> delta > 0.001);
          mask_g = (cmax = g \<and> delta > 0.001);
          mask_b = (cmax = b \<and> delta > 0.001);
          hue = 0;
          hue = (if mask_r then 60 * py_mod ((g - b) / delta) 6 else hue);
          hue = (if mask_g then 60 * ((b - r) / delta + 2) else hue);
          hue = (if mask_b then 60 * ((r - g) / delta + 4) else hue)
      in py_mod hue 360)"

fun saturation_of :: "rgb \<Rightarrow> real" where
  "saturation_of (r, g, b) =
     (let cmax = max (max r g) b;
          cmin = min (min r g) b;
          delta = cmax - cmin
      in if cmax > 0.001 then delta / cmax else 0)"

text \<open>The mask for the target hue range, before it is scaled by the saturation.\<close>

fun hue_window :: "real \<times> real \<Rightarrow> real \<Rightarrow> real" where
  "hue_window (h_min, h_max) hue =
     (if h_min < h_max then
        (let center = (h_min + h_max) / 2;
             width = (h_max - h_min) / 2;
             dist = \<bar>hue - center\<bar>
         in clip (1 - (dist - width * 0.6) / (width * 0.4)) 0 1)
      else
        (let in_range = (hue \<ge> h_min \<or> hue \<le> h_max)
         in if in_range then 1 else 0))"

definition hsl_strength :: "real \<times> real \<Rightarrow> rgb \<Rightarrow> real" where
  "hsl_strength target_hue_range c =
     hue_window target_hue_range (hue_of c) * clip (saturation_of c * 3) 0 1"

fun hue_rotate :: "real \<Rightarrow> real \<Rightarrow> rgb \<Rightarrow> rgb" where
  "hue_rotate hue_shift strength (r, g, b) =
     (let angle = hue_shift * pi / 180;
          cos_a = cos angle;
          sin_a = sin angle;
          lum = luminance (r, g, b);
          r_c = r - lum;
          g_c = g - lum;
          b_c = b - lum;
          nr = r_c * cos_a + g_c * sin_a * 0.5;
          ng = g_c * cos_a - r_c * sin_a * 0.3 + b_c * sin_a * 0.3;
          nb = b_c * cos_a - g_c * sin_a * 0.5
      in (r + strength * (nr - r_c) * 0.5,
          g + strength * (ng - g_c) * 0.5,
          b + strength * (nb - b_c) * 0.5))"

definition hsl_adjust_cell :: "real \<times> real \<Rightarrow> real \<Rightarrow> real \<Rightarrow> real \<Rightarrow> rgb \<Rightarrow> rgb" where
  "hsl_adjust_cell target_hue_range hue_shift sat_shift lum_shift c =
     (let result = c;
          saturation = saturation_of c;
          strength = hsl_strength target_hue_range c;
          result =
            (if sat_shift \<noteq> 0 then
               (let new_sat = clip (saturation * (1 + sat_shift)) 0 1;
                    sat_factor = (if saturation > 0.001 then new_sat / saturation else 1);
                    sat_factor = strength * sat_factor + (1 - strength) * 1;
                    lum = luminance c
                in map_rgb (\<lambda>x. lum + (x - lum) * sat_factor) c)
             else result);
          result =
            (if lum_shift \<noteq> 0 then map_rgb (\<lambda>x. x + strength * lum_shift * 0.15) result
             else result);
          result =
            (if hue_shift \<noteq> 0 then hue_rotate hue_shift strength result
             else result)
      in clip_rgb result)"

definition hsl_adjust :: "grid \<Rightarrow> real \<times> real \<Rightarrow> real \<Rightarrow> real \<Rightarrow> real \<Rightarrow> grid" where
  "hsl_adjust lut target_hue_range hue_shift sat_shift lum_shift =
     map_grid (hsl_adjust_cell target_hue_range hue_shift sat_shift lum_shift) lut"

section \<open>Split toning\<close>

text \<open>The parameter \<^verbatim>\<open>balance\<close> is accepted and not read by the body.\<close>

fun split_tone_cell :: "rgb \<Rightarrow> rgb \<Rightarrow> real \<Rightarrow> rgb \<Rightarrow> rgb" where
  "split_tone_cell (sr, sg, sb) (hr, hg, hb) balance (r, g, b) =
     (let lum = luminance (r, g, b);
          shadow_mask = clip (1 - lum * 2) 0 1 powr 1.2;
          highlight_mask = clip ((lum - 0.5) * 2) 0 1 powr 1.2
      in clip_rgb
           (r + shadow_mask * (sr - 0.5) * 0.15 + highlight_mask * (hr - 0.5) * 0.15,
            g + shadow_mask * (sg - 0.5) * 0.15 + highlight_mask * (hg - 0.5) * 0.15,
            b + shadow_mask * (sb - 0.5) * 0.15 + highlight_mask * (hb - 0.5) * 0.15))"

definition split_tone :: "grid \<Rightarrow> rgb \<Rightarrow> rgb \<Rightarrow> real \<Rightarrow> grid" where
  "split_tone lut shadow_rgb highlight_rgb balance =
     map_grid (split_tone_cell shadow_rgb highlight_rgb balance) lut"

section \<open>Loops and failures\<close>

text \<open>
  A \<^verbatim>\<open>for\<close> loop whose body may raise: the state is threaded through the iterations
  and the first error ends the loop.
\<close>

fun for_each :: "'i list \<Rightarrow> ('i \<Rightarrow> 's \<Rightarrow> error + 's) \<Rightarrow> 's \<Rightarrow> error + 's" where
  "for_each [] body s = Inr s"
| "for_each (i # is) body s =
     (case body i s of Inl e \<Rightarrow> Inl e | Inr s' \<Rightarrow> for_each is body s')"

text \<open>Python's \<^verbatim>\<open>/\<close> on two integers: the quotient as a float, or ZeroDivisionError.\<close>

definition py_div :: "int \<Rightarrow> int \<Rightarrow> error + real" where
  "py_div a b = (if b = 0 then Inl ZeroDivisionError else Inr (of_int a / of_int b))"

section \<open>Grid construction\<close>

text \<open>The parameter \<^verbatim>\<open>size\<close> of the source is written \<open>sz\<close>.\<close>

text \<open>\<^verbatim>\<open>np.zeros((size, size, size, 3))\<close>: a negative dimension is refused.\<close>

definition np_zeros :: "int \<Rightarrow> error + grid" where
  "np_zeros sz =
     (if sz < 0 then Inl ValueError
      else Inr (replicate (nat sz) (replicate (nat sz) (replicate (nat sz) (0, 0, 0)))))"

text \<open>\<^verbatim>\<open>lut[b, g, r] = v\<close> and \<^verbatim>\<open>lut[b, g, r]\<close>, with numpy's bounds check.\<close>

definition set_cell :: "grid \<Rightarrow> nat \<Rightarrow> nat \<Rightarrow> nat \<Rightarrow> rgb \<Rightarrow> error + grid" where
  "set_cell lut b g r v =
     (if b < length lut \<and> g < length (lut ! b) \<and> r < length (lut ! b ! g)
      then Inr (lut[b := (lut ! b)[g := (lut ! b ! g)[r := v]]])
      else Inl IndexError)"

definition cell_at :: "grid \<Rightarrow> nat \<Rightarrow> nat \<Rightarrow> nat \<Rightarrow> error + rgb" where
  "cell_at lut b g r =
     (if b < length lut \<and> g < length (lut ! b) \<and> r < length (lut ! b ! g)
      then Inr (lut ! b ! g ! r)
      else Inl IndexError)"

definition identity_lut :: "int \<Rightarrow> error + grid" where
  "identity_lut sz =
     (case np_zeros sz of
        Inl e \<Rightarrow> Inl e
      | Inr lut \<Rightarrow>
          for_each [0..<nat sz] (\<lambda>b.
            for_each [0..<nat sz] (\<lambda>g.
              for_each [0..<nat sz] (\<lambda>r lut.
                case py_div (int r) (sz - 1) of Inl e \<Rightarrow> Inl e | Inr vr \<Rightarrow>
                case py_div (int g) (sz - 1) of Inl e \<Rightarrow> Inl e | Inr vg \<Rightarrow>
                case py_div (int b) (sz - 1) of Inl e \<Rightarrow> Inl e | Inr vb \<Rightarrow>
                  set_cell lut b g r (vr, vg, vb)))) lut)"

text \<open>The shape \<open>(n, n, n, 3)\<close> of a grid.\<close>

definition cubic :: "nat \<Rightarrow> grid \<Rightarrow> bool" where
  "cubic n lut =
     (length lut = n \<and> list_all (\<lambda>plane. length plane = n \<and>
        list_all (\<lambda>row. length row = n) plane) lut)"

section \<open>Double precision\<close>

text \<open>Rounding to the nearest integer, a tie going to the even one.\<close>

definition round_half_even :: "real \<Rightarrow> int" where
  "round_half_even y =
     (let f = \<lfloor>y\<rfloor>;
          d = y - of_int f
      in if d < 1 / 2 then f else if d > 1 / 2 then f + 1
         else if even f then f else f + 1)"

text \<open>
  Rounding a real number to the nearest double (IEEE 754 binary64, round to nearest,
  ties to even). A number of magnitude \<open>y\<close> with \<open>2\<^sup>e \<le> y < 2\<^sup>e\<^sup>+\<^sup>1\<close> is rounded to a multiple
  of \<open>2\<^sup>e\<^sup>-\<^sup>5\<^sup>2\<close>; below \<open>2\<^sup>-\<^sup>1\<^sup>0\<^sup>2\<^sup>2\<close> the doubles are the multiples of \<open>2\<^sup>-\<^sup>1\<^sup>0\<^sup>7\<^sup>4\<close>. The exponent
  is read off the number of bits of \<open>\<lfloor>y * 2\<^sup>1\<^sup>0\<^sup>7\<^sup>4\<rfloor>\<close>. Overflow to infinity is not
  modelled: the numbers rounded below are all smaller than \<open>2\<close> in magnitude.
\<close>

definition float_exponent :: "real \<Rightarrow> int" where
  "float_exponent y = bitlen \<lfloor>y * 2 ^ 1074\<rfloor> - 1075"

definition clamped_exponent :: "real \<Rightarrow> int" where
  "clamped_exponent y = max (float_exponent y) (- 1022)"

definition fl :: "real \<Rightarrow> real" where
  "fl x =
     (let q = 2 powi (clamped_exponent \<bar>x\<bar> - 52)
      in of_int (round_half_even (x / q)) * q)"

text \<open>
  A decimal literal of the source denotes the double nearest to it. The control points
  of a curve are written with such literals.
\<close>

definition float_points :: "(real \<times> real) list \<Rightarrow> (real \<times> real) list" where
  "float_points ps = map (\<lambda>(x, y). (fl x, fl y)) ps"

section \<open>Tone curve\<close>

text \<open>
  \<^verbatim>\<open>np.interp(x, xp, fp)\<close> is numpy's; it is modelled after its implementation. A value
  right of the last sample point gives the last sample value and a value left of the
  first gives the first. Otherwise the index \<open>j\<close> is the one before the first sample
  point beyond \<open>x\<close>; the result is \<open>fp[j]\<close> when \<open>j\<close> is the last index or \<open>xp[j]\<close>
  is \<open>x\<close>, and \<open>slope * (x - xp[j]) + fp[j]\<close> otherwise, where \<open>slope\<close> is
  \<open>(fp[j+1] - fp[j]) / (xp[j+1] - xp[j])\<close>. These five operations are done in doubles,
  each rounded by itself, and nothing clamps the result. An empty \<open>xp\<close> and sample lists
  of different lengths are refused.
\<close>

fun interp_search :: "real \<Rightarrow> (real \<times> real) list \<Rightarrow> real" where
  "interp_search x [] = 0"
| "interp_search x [(x0, y0)] = y0"
| "interp_search x ((x0, y0) # (x1, y1) # ps) =
     (if x < x1 then
        (if x0 = x then y0
         else (let slope = fl (fl (y1 - y0) / fl (x1 - x0))
               in fl (fl (slope * fl (x - x0)) + y0)))
      else interp_search x ((x1, y1) # ps))"

definition interp_elem :: "real list \<Rightarrow> real list \<Rightarrow> real \<Rightarrow> real" where
  "interp_elem xp fp x =
     (if x > last xp then last fp
      else if x < hd xp then hd fp
      else interp_search x (zip xp fp))"

definition np_interp :: "real \<Rightarrow> real list \<Rightarrow> real list \<Rightarrow> error + real" where
  "np_interp x xp fp =
     (if xp = [] then Inl ValueError
      else if length fp \<noteq> length xp then Inl ValueError
      else Inr (interp_elem xp fp x))"

definition np_interp_arr ::
    "real list list list \<Rightarrow> real list \<Rightarrow> real list \<Rightarrow> error + real list list list" where
  "np_interp_arr x xp fp =
     (if xp = [] then Inl ValueError
      else if length fp \<noteq> length xp then Inl ValueError
      else Inr (map (map (map (interp_elem xp fp))) x))"

text \<open>
  \<open>apply_curve\<close> is called on whole channels; numpy's functions take a scalar as well as
  an array, so the function is given at both shapes, with the same body.
\<close>

definition apply_curve :: "real \<Rightarrow> (real \<times> real) list \<Rightarrow> error + real" where
  "apply_curve x points =
     (let points = sort_key fst points;
          xs = map fst points;
          ys = map snd points
      in np_interp x xs ys)"

definition apply_curve_arr ::
    "real list list list \<Rightarrow> (real \<times> real) list \<Rightarrow> error + real list list list" where
  "apply_curve_arr x points =
     (let points = sort_key fst points;
          xs = map fst points;
          ys = map snd points
      in np_interp_arr x xs ys)"

text \<open>\<^verbatim>\<open>lut[..., c]\<close> read and assigned.\<close>

fun get_ch :: "nat \<Rightarrow> rgb \<Rightarrow> real" where
  "get_ch c (r, g, b) = (if c = 0 then r else if c = 1 then g else b)"

fun set_ch :: "nat \<Rightarrow> rgb \<Rightarrow> real \<Rightarrow> rgb" where
  "set_ch c (r, g, b) v = (if c = 0 then (v, g, b) else if c = 1 then (r, v, b) else (r, g, v))"

definition channel :: "nat \<Rightarrow> grid \<Rightarrow> real list list list" where
  "channel c lut = map (map (map (get_ch c))) lut"

definition set_channel :: "nat \<Rightarrow> grid \<Rightarrow> real list list list \<Rightarrow> grid" where
  "set_channel c lut arr = map2 (map2 (map2 (set_ch c))) lut arr"

text \<open>
  The closing loop of every preset:
  \<^verbatim>\<open>for c in range(3): lut[..., c] = apply_curve(lut[..., c], points)\<close>
\<close>

definition curve_channels :: "(real \<times> real) list \<Rightarrow> grid \<Rightarrow> error + grid" where
  "curve_channels points lut =
     for_each [0, 1, 2] (\<lambda>c lut.
       case apply_curve_arr (channel c lut) points of
         Inl e \<Rightarrow> Inl e
       | Inr arr \<Rightarrow> Inr (set_channel c lut arr)) lut"

section \<open>Encoder\<close>

text \<open>
  The decimal digits of a natural number, and Python's \<^verbatim>\<open>:.6f\<close>: the value rounded to
  six decimals, ties to even, with the sign kept.
\<close>

definition digit_char :: "nat \<Rightarrow> char" where
  "digit_char d = ''0123456789'' ! d"

fun show_nat :: "nat \<Rightarrow> string" where
  "show_nat n = (if n < 10 then [digit_char n] else show_nat (n div 10) @ [digit_char (n mod 10)])"

declare show_nat.simps [simp del]

definition format_6f :: "real \<Rightarrow> string" where
  "format_6f x =
     (let n = nat (round_half_even (\<bar>x\<bar> * 10 ^ 6));
          frac = show_nat (n mod 10 ^ 6)
      in (if x < 0 then ''-'' else []) @ show_nat (n div 10 ^ 6) @ ''.'' @
         replicate (6 - length frac) (CHR ''0'') @ frac)"

definition newline :: string where
  "newline = [CHR 0x0A]"

definition dquote :: string where
  "dquote = [CHR 0x22]"

fun cube_line :: "rgb \<Rightarrow> string" where
  "cube_line (r, g, b) =
     format_6f r @ '' '' @ format_6f g @ '' '' @ format_6f b @ newline"

text \<open>The file is the concatenation of the strings written to it.\<close>

definition write_cube :: "grid \<Rightarrow> string \<Rightarrow> error + string" where
  "write_cube lut title =
     (let sz = length lut;
          f = [];
          f = f @ ''TITLE '' @ dquote @ title @ dquote @ newline;
          f = f @ ''LUT_3D_SIZE '' @ show_nat sz @ newline;
          f = f @ ''DOMAIN_MIN 0.0 0.0 0.0'' @ newline;
          f = f @ ''DOMAIN_MAX 1.0 1.0 1.0'' @ newline;
          f = f @ newline
      in for_each [0..<sz] (\<lambda>b.
           for_each [0..<sz] (\<lambda>g.
             for_each [0..<sz] (\<lambda>r f.
               case cell_at lut b g r of
                 Inl e \<Rightarrow> Inl e
               | Inr rgb \<Rightarrow> Inr (f @ cube_line rgb)))) f)"

text \<open>
  The file format in the words of the specification: the five header lines, then one
  line for each of the \<open>N\<^sup>3\<close> cells, the red index varying fastest, then green, then
  blue. Line \<open>k\<close> of the data is the cell at blue index \<open>k div N\<^sup>2\<close>, green index
  \<open>k div N mod N\<close> and red index \<open>k mod N\<close>. Every line ends with a line feed, written
  here as the character itself, and the title stands between two double quotes.
\<close>

definition spec_header :: "string \<Rightarrow> nat \<Rightarrow> string list" where
  "spec_header title N =
     [''TITLE '' @ [CHR 0x22] @ title @ [CHR 0x22],
      ''LUT_3D_SIZE '' @ show_nat N,
      ''DOMAIN_MIN 0.0 0.0 0.0'',
      ''DOMAIN_MAX 1.0 1.0 1.0'',
      []]"

fun spec_triple :: "rgb \<Rightarrow> string" where
  "spec_triple (r, g, b) = format_6f r @ '' '' @ format_6f g @ '' '' @ format_6f b"

definition spec_data :: "grid \<Rightarrow> nat \<Rightarrow> string list" where
  "spec_data lut N =
     map (\<lambda>k. spec_triple (lut ! (k div (N * N)) ! (k div N mod N) ! (k mod N))) [0..<N ^ 3]"

definition unlines :: "string list \<Rightarrow> string" where
  "unlines ls = concat (map (\<lambda>l. l @ [CHR 0x0A]) ls)"

definition is_digit :: "char \<Rightarrow> bool" where
  "is_digit c = (c \<in> set ''0123456789'')"

text \<open>A decimal numeral with exactly six digits after the point.\<close>

definition six_decimals :: "string \<Rightarrow> bool" where
  "six_decimals s =
     (8 \<le> length s \<and> s ! (length s - 7) = CHR ''.'' \<and>
      list_all is_digit (take (length s - 7) s) \<and>
      list_all is_digit (drop (length s - 6) s))"

text \<open>
  Reading a printed number back: the value of a string of decimal digits, and the value
  of a numeral with six digits after the point. A string prints a number to six decimals
  when it has that shape and reads back to within half a unit of the sixth decimal.
\<close>

definition digit_value :: "char \<Rightarrow> nat" where
  "digit_value c = of_char c - 48"

definition decode_nat :: "string \<Rightarrow> nat" where
  "decode_nat s = foldl (\<lambda>a c. 10 * a + digit_value c) 0 s"

definition decode_6f :: "string \<Rightarrow> real" where
  "decode_6f s =
     real (decode_nat (take (length s - 7) s)) +
     real (decode_nat (drop (length s - 6) s)) / 10 ^ 6"

definition prints_6f :: "real \<Rightarrow> string \<Rightarrow> bool" where
  "prints_6f x s = (six_decimals s \<and> \<bar>decode_6f s - x\<bar> \<le> 1 / 2000000)"

section \<open>Rising curves\<close>

text \<open>
  The value that the rounded interpolation formula of \<open>interp_search\<close> takes at the right
  end of the segment between two control points, and the curves that rise from one
  control point to the next, with outputs in \<open>[0,1]\<close> and with this value at most \<open>1\<close> on
  every segment.
\<close>

definition seg_end :: "real \<times> real \<Rightarrow> real \<times> real \<Rightarrow> real" where
  "seg_end p0 p1 =
     (let slope = fl (fl (snd p1 - snd p0) / fl (fst p1 - fst p0))
      in fl (fl (slope * fl (fst p1 - fst p0)) + snd p0))"

fun rising :: "(real \<times> real) list \<Rightarrow> bool" where
  "rising [] = True"
| "rising [(x0, y0)] = in_unit y0"
| "rising ((x0, y0) # (x1, y1) # ps) =
     (in_unit y0 \<and> y0 \<le> y1 \<and> seg_end (x0, y0) (x1, y1) \<le> 1 \<and> rising ((x1, y1) # ps))"

section \<open>Presets\<close>

text \<open>
  Each preset starts from the identity grid of size \<open>LUT_SIZE\<close>, applies its operators
  in the order of the source and ends with its tone curve on the three channels. The
  keyword arguments left out at a call take their defaults: shifts of \<open>0\<close> for
  \<open>hsl_adjust\<close> and a balance of \<open>0.5\<close> for \<open>split_tone\<close>.
\<close>

definition generate_vintage :: "error + grid" where
  "generate_vintage =
     (case identity_lut LUT_SIZE of
        Inl e \<Rightarrow> Inl e
      | Inr lut \<Rightarrow>
          (let lut = adjust_exposure lut 0.5;
               lut = adjust_contrast lut (- 20);
               lut = adjust_shadows lut 40;
               lut = adjust_temperature lut 12;
               lut = adjust_tint lut 8;
               lut = lift_blacks lut 0.06;
               lut = hsl_adjust lut (15, 45) 0 (- 0.10) 0.20;
               lut = split_tone lut (0.55, 0.48, 0.42) (0.55, 0.52, 0.45) 0.5
           in curve_channels
                (float_points
                  [(0.0, 0.05), (0.15, 0.18), (0.5, 0.52), (0.85, 0.87), (1.0, 0.98)]) lut))"





text \<open>The luminance of every cell of a grid.\<close>

definition luminances :: "grid \<Rightarrow> real list list list" where
  "luminances lut = map (map (map luminance)) lut"

text \<open>The transfer function of a curve: what \<open>apply_curve\<close> does to one value.\<close>

definition curve_fun :: "(real \<times> real) list \<Rightarrow> real \<Rightarrow> real" where
  "curve_fun points = interp_elem (map fst (sort_key fst points)) (map snd (sort_key fst points))"

section \<open>Helper facts\<close>

lemma clip_unit_id: "in_unit x \<Longrightarrow> clip x 0 1 = x"
  by (simp add: clip_def in_unit_def)



lemma clip_rgb_unit_id: "cell_in_unit c \<Longrightarrow> clip_rgb c = c"
  by (cases c) (simp add: clip_rgb_def clip_unit_id)

lemma map_grid_id:
  assumes "grid_in_unit lut" and "\<And>c. cell_in_unit c \<Longrightarrow> f c = c"
  shows "map_grid f lut = lut"
  using assms unfolding map_grid_def grid_in_unit_def list_all_iff
  by (simp add: map_idI)

lemma map_grid_in_unit:
  assumes "\<And>c. cell_in_unit (f c)"
  shows "grid_in_unit (map_grid f lut)"
  using assms unfolding map_grid_def grid_in_unit_def list_all_iff
  by simp

section \<open>Split toning ignores the balance\<close>

text \<open>
  Claim C9. The output of \<open>split_tone\<close> does not depend on the balance: for every grid,
  every shadow colour and highlight colour, any two balance values give the same grid.
\<close>

theorem split_tone_balance_unused:
  "split_tone lut shadow_rgb highlight_rgb balance1 =
   split_tone lut shadow_rgb highlight_rgb balance2"
proof -
  have "split_tone_cell shadow_rgb highlight_rgb balance1 c =
        split_tone_cell shadow_rgb highlight_rgb balance2 c" for c
    by (cases shadow_rgb; cases highlight_rgb; cases c) simp
  then have "split_tone_cell shadow_rgb highlight_rgb balance1 =
             split_tone_cell shadow_rgb highlight_rgb balance2"
    by (rule ext)
  then show ?thesis
    by (simp add: split_tone_def)
qed

section \<open>Operators at zero\<close>


lemma contrast_zero_cell: "cell_in_unit c \<Longrightarrow> adjust_contrast_cell 0 c = c"
  by (cases c) (simp add: adjust_contrast_cell_def clip_rgb_def clip_unit_id)

lemma saturation_zero_cell: "cell_in_unit c \<Longrightarrow> adjust_saturation_cell 0 c = c"
  by (cases c) (simp add: adjust_saturation_cell_def clip_rgb_def clip_unit_id)

lemma vibrance_zero_cell: "cell_in_unit c \<Longrightarrow> adjust_vibrance_cell 0 c = c"
  by (cases c) (simp add: adjust_vibrance_cell_def clip_rgb_def clip_unit_id)

lemma temperature_zero_cell: "cell_in_unit c \<Longrightarrow> adjust_temperature_cell 0 c = c"
  by (cases c) (simp add: clip_rgb_def clip_unit_id)

lemma tint_zero_cell: "cell_in_unit c \<Longrightarrow> adjust_tint_cell 0 c = c"
  by (cases c) (simp add: clip_rgb_def clip_unit_id)

lemma highlights_zero_cell: "cell_in_unit c \<Longrightarrow> adjust_highlights_cell 0 c = c"
  by (cases c) (simp add: adjust_highlights_cell_def clip_rgb_def clip_unit_id)

lemma shadows_zero_cell: "cell_in_unit c \<Longrightarrow> adjust_shadows_cell 0 c = c"
  by (cases c) (simp add: adjust_shadows_cell_def clip_rgb_def clip_unit_id)

lemma whites_zero_cell: "cell_in_unit c \<Longrightarrow> adjust_whites_cell 0 c = c"
  by (cases c) (simp add: adjust_whites_cell_def clip_rgb_def clip_unit_id)

lemma blacks_zero_cell: "cell_in_unit c \<Longrightarrow> adjust_blacks_cell 0 c = c"
  by (cases c) (simp add: adjust_blacks_cell_def clip_rgb_def clip_unit_id)

lemma hsl_zero_cell: "cell_in_unit c \<Longrightarrow> hsl_adjust_cell rng 0 0 0 c = c"
  by (simp add: hsl_adjust_cell_def clip_rgb_unit_id)

text \<open>
  Claim C5. On a grid whose cells lie in \<open>[0,1]\<close>, each of contrast, saturation,
  vibrance, temperature, tint, highlights, shadows, whites and blacks with amount \<open>0\<close>
  returns its input.
\<close>

theorem zero_amount_is_identity:
  assumes "grid_in_unit lut"
  shows "adjust_contrast lut 0 = lut \<and> adjust_saturation lut 0 = lut \<and>
         adjust_vibrance lut 0 = lut \<and> adjust_temperature lut 0 = lut \<and>
         adjust_tint lut 0 = lut \<and> adjust_highlights lut 0 = lut \<and>
         adjust_shadows lut 0 = lut \<and> adjust_whites lut 0 = lut \<and>
         adjust_blacks lut 0 = lut"
  unfolding adjust_contrast_def adjust_saturation_def adjust_vibrance_def
    adjust_temperature_def adjust_tint_def adjust_highlights_def adjust_shadows_def
    adjust_whites_def adjust_blacks_def
  using assms
  by (simp add: map_grid_id contrast_zero_cell saturation_zero_cell vibrance_zero_cell
      temperature_zero_cell tint_zero_cell highlights_zero_cell shadows_zero_cell
      whites_zero_cell blacks_zero_cell)

theorem zero_amount_is_identity_witness:
  "grid_in_unit [[[(1 / 4, 1 / 2, 1)]]] \<and>
   adjust_contrast [[[(1 / 4, 1 / 2, 1)]]] 0 = [[[(1 / 4, 1 / 2, 1)]]] \<and>
   adjust_vibrance [[[(1 / 4, 1 / 2, 1)]]] 0 = [[[(1 / 4, 1 / 2, 1)]]] \<and>
   adjust_blacks [[[(1 / 4, 1 / 2, 1)]]] 0 = [[[(1 / 4, 1 / 2, 1)]]]"
proof -
  have h: "grid_in_unit [[[(1 / 4, 1 / 2, 1)]]]"
    by (simp add: grid_in_unit_def in_unit_def)
  show ?thesis
    using h zero_amount_is_identity [OF h] by simp
qed

text \<open>
  Claim C10. On a grid whose cells lie in \<open>[0,1]\<close>, and for every hue range,
  \<open>hsl_adjust\<close> with hue, saturation and luminance shifts all \<open>0\<close> returns its input.
\<close>

theorem hsl_zero_shifts_is_identity:
  assumes "grid_in_unit lut"
  shows "hsl_adjust lut target_hue_range 0 0 0 = lut"
  unfolding hsl_adjust_def using assms
  by (simp add: map_grid_id hsl_zero_cell)

theorem hsl_zero_shifts_is_identity_witness:
  "grid_in_unit [[[(1, 1 / 12, 0)]]] \<and>
   hsl_adjust [[[(1, 1 / 12, 0)]]] (350, 10) 0 0 0 = [[[(1, 1 / 12, 0)]]]"
proof -
  have h: "grid_in_unit [[[(1, 1 / 12, 0)]]]"
    by (simp add: grid_in_unit_def in_unit_def)
  show ?thesis
    using h hsl_zero_shifts_is_identity [OF h] by simp
qed

section \<open>Hue ranges that wrap\<close>

lemma hue_rotate_zero: "hue_rotate hue_shift 0 c = c"
  by (cases c) (simp add: Let_def)

lemma hsl_strength_wrap:
  assumes "h_min \<ge> h_max"
  shows "hsl_strength (h_min, h_max) c =
           (if hue_of c \<ge> h_min \<or> hue_of c \<le> h_max then clip (saturation_of c * 3) 0 1 else 0)"
  using assms by (simp add: hsl_strength_def)

lemma hsl_cell_excluded:
  assumes "h_min \<ge> h_max" "\<not> (hue_of c \<ge> h_min \<or> hue_of c \<le> h_max)" "cell_in_unit c"
  shows "hsl_adjust_cell (h_min, h_max) hue_shift sat_shift lum_shift c = c"
proof -
  have s: "hsl_strength (h_min, h_max) c = 0"
    using assms(1,2) by (simp add: hsl_strength_wrap)
  have m: "map_rgb (\<lambda>x. l + (x - l)) c = c" for l
    by (cases c) simp
  have z: "map_rgb (\<lambda>x. x) c = c"
    by (cases c) simp
  show ?thesis
    unfolding hsl_adjust_cell_def Let_def s
    using assms(3) by (simp add: m z hue_rotate_zero clip_rgb_unit_id)
qed

lemma hsl_cell_selected:
  assumes "h_min \<ge> h_max" "hue_of c \<ge> h_min \<or> hue_of c \<le> h_max"
  shows "hsl_adjust_cell (h_min, h_max) 0 0 lum_shift c =
           clip_rgb (map_rgb (\<lambda>x. x + clip (saturation_of c * 3) 0 1 * lum_shift * 0.15) c)"
proof -
  have s: "hsl_strength (h_min, h_max) c = clip (saturation_of c * 3) 0 1"
    using assms by (simp add: hsl_strength_wrap)
  have z: "map_rgb (\<lambda>x. x) c = c"
    by (cases c) simp
  show ?thesis
    unfolding hsl_adjust_cell_def Let_def s by (simp add: z)
qed

lemma hsl_adjust_nth:
  assumes "b < length lut" "g < length (lut ! b)" "r < length (lut ! b ! g)"
  shows "hsl_adjust lut rng hue_shift sat_shift lum_shift ! b ! g ! r =
           hsl_adjust_cell rng hue_shift sat_shift lum_shift (lut ! b ! g ! r)"
  using assms by (simp add: hsl_adjust_def map_grid_def)

lemma hue_examples:
  "hue_of (1, 0, 1 / 12) = 355" "hue_of (1, 1 / 12, 0) = 5" "hue_of (0, 1, 1) = 180"
  by (simp_all add: py_mod_def Let_def)

lemma hsl_strength_examples:
  "hsl_strength (350, 10) (1, 0, 1 / 12) = 1" "hsl_strength (350, 10) (1, 1 / 12, 0) = 1"
  "hsl_strength (350, 10) (0, 1, 1) = 0"
  unfolding hsl_strength_def hue_examples by (simp_all add: clip_def)

lemma hsl_adjust_examples:
  "hsl_adjust [[[(1, 0, 1 / 12), (1, 1 / 12, 0), (0, 1, 1)]]] (350, 10) 0 0 1 =
     [[[(1, 3 / 20, 7 / 30), (1, 7 / 30, 3 / 20), (0, 1, 1)]]]"
  "hsl_adjust [[[(1, 0, 1 / 12), (1, 1 / 12, 0), (0, 1, 1)]]] (350, 10) 0 (- 1) 0 =
     [[[(luminance (1, 0, 1 / 12), luminance (1, 0, 1 / 12), luminance (1, 0, 1 / 12)),
        (luminance (1, 1 / 12, 0), luminance (1, 1 / 12, 0), luminance (1, 1 / 12, 0)),
        (0, 1, 1)]]]"
  unfolding hsl_adjust_def map_grid_def hsl_adjust_cell_def Let_def
  by (simp_all add: hsl_strength_examples clip_rgb_def clip_def)

text \<open>
  Claim C7. When \<open>h_min \<ge> h_max\<close> the selection of \<open>hsl_adjust\<close> wraps through 0/360
  and is hard. The hue window is the indicator of \<open>hue \<ge> h_min \<or> hue \<le> h_max\<close>, with no
  smoothing, and the strength of a cell is this indicator scaled by the clipped
  saturation, so it is nonzero exactly for the cells in the range that have some
  saturation. \<open>hsl_adjust\<close> acts accordingly: a cell in \<open>[0,1]\<close> whose hue is outside the
  range is returned unchanged whatever the three shifts are, also as a cell of a grid,
  and a cell whose hue is in the range receives the whole luminance shift, scaled by its
  clipped saturation only, wherever its hue lies in the range. For the range
  \<open>(350, 10)\<close>, the saturated cells of hue \<open>355\<close> and \<open>5\<close> have strength \<open>1\<close> and the cell of
  hue \<open>180\<close> has strength \<open>0\<close>; on the grid of these three cells a luminance shift of \<open>1\<close>
  raises the first two by \<open>0.15\<close> (clamped) and a saturation shift of \<open>-1\<close> turns them grey,
  and both leave the third as it is.
\<close>

theorem hsl_wraparound_selection:
  assumes "h_min \<ge> h_max"
  shows "hue_window (h_min, h_max) hue = (if hue \<ge> h_min \<or> hue \<le> h_max then 1 else 0) \<and>
         hsl_strength (h_min, h_max) c =
           (if hue_of c \<ge> h_min \<or> hue_of c \<le> h_max then clip (saturation_of c * 3) 0 1 else 0) \<and>
         (hsl_strength (h_min, h_max) c \<noteq> 0 \<longleftrightarrow>
            (hue_of c \<ge> h_min \<or> hue_of c \<le> h_max) \<and> saturation_of c > 0) \<and>
         (\<not> (hue_of c \<ge> h_min \<or> hue_of c \<le> h_max) \<and> cell_in_unit c \<longrightarrow>
            hsl_adjust_cell (h_min, h_max) hue_shift sat_shift lum_shift c = c) \<and>
         (b < length lut \<and> g < length (lut ! b) \<and> r < length (lut ! b ! g) \<and>
          lut ! b ! g ! r = c \<and>
          \<not> (hue_of c \<ge> h_min \<or> hue_of c \<le> h_max) \<and> cell_in_unit c \<longrightarrow>
            hsl_adjust lut (h_min, h_max) hue_shift sat_shift lum_shift ! b ! g ! r = c) \<and>
         (hue_of c \<ge> h_min \<or> hue_of c \<le> h_max \<longrightarrow>
            hsl_adjust_cell (h_min, h_max) 0 0 lum_shift c =
              clip_rgb (map_rgb (\<lambda>x. x + clip (saturation_of c * 3) 0 1 * lum_shift * 0.15) c)) \<and>
         hue_of (1, 0, 1 / 12) = 355 \<and> hsl_strength (350, 10) (1, 0, 1 / 12) = 1 \<and>
         hue_of (1, 1 / 12, 0) = 5 \<and> hsl_strength (350, 10) (1, 1 / 12, 0) = 1 \<and>
         hue_of (0, 1, 1) = 180 \<and> hsl_strength (350, 10) (0, 1, 1) = 0 \<and>
         hsl_adjust [[[(1, 0, 1 / 12), (1, 1 / 12, 0), (0, 1, 1)]]] (350, 10) 0 0 1 =
           [[[(1, 3 / 20, 7 / 30), (1, 7 / 30, 3 / 20), (0, 1, 1)]]] \<and>
         hsl_adjust [[[(1, 0, 1 / 12), (1, 1 / 12, 0), (0, 1, 1)]]] (350, 10) 0 (- 1) 0 =
           [[[(luminance (1, 0, 1 / 12), luminance (1, 0, 1 / 12), luminance (1, 0, 1 / 12)),
              (luminance (1, 1 / 12, 0), luminance (1, 1 / 12, 0), luminance (1, 1 / 12, 0)),
              (0, 1, 1)]]]"
proof -
  have w: "hue_window (h_min, h_max) hue = (if hue \<ge> h_min \<or> hue \<le> h_max then 1 else 0)"
    using assms by simp
  note s = hsl_strength_wrap [OF assms, of c]
  have n: "hsl_strength (h_min, h_max) c \<noteq> 0 \<longleftrightarrow>
            (hue_of c \<ge> h_min \<or> hue_of c \<le> h_max) \<and> saturation_of c > 0"
    unfolding s by (auto simp: clip_def min_def max_def)
  have e: "hsl_adjust_cell (h_min, h_max) hue_shift sat_shift lum_shift c = c"
    if "\<not> (hue_of c \<ge> h_min \<or> hue_of c \<le> h_max) \<and> cell_in_unit c"
    using that hsl_cell_excluded [OF assms] by blast
  have g: "hsl_adjust lut (h_min, h_max) hue_shift sat_shift lum_shift ! b ! g ! r = c"
    if "b < length lut \<and> g < length (lut ! b) \<and> r < length (lut ! b ! g) \<and>
        lut ! b ! g ! r = c \<and>
        \<not> (hue_of c \<ge> h_min \<or> hue_of c \<le> h_max) \<and> cell_in_unit c"
    using that e by (simp add: hsl_adjust_nth)
  have i: "hsl_adjust_cell (h_min, h_max) 0 0 lum_shift c =
              clip_rgb (map_rgb (\<lambda>x. x + clip (saturation_of c * 3) 0 1 * lum_shift * 0.15) c)"
    if "hue_of c \<ge> h_min \<or> hue_of c \<le> h_max"
    using that by (rule hsl_cell_selected [OF assms])
  show ?thesis
    using w s n e g i hue_examples hsl_strength_examples hsl_adjust_examples
    by (intro conjI impI) blast+
qed

theorem hsl_wraparound_selection_witness:
  "(350 :: real) \<ge> 10 \<and>
   \<not> (hue_of (0, 1, 1) \<ge> 350 \<or> hue_of (0, 1, 1) \<le> 10) \<and> cell_in_unit (0, 1, 1) \<and>
   hsl_adjust_cell (350, 10) 30 (1 / 2) (1 / 2) (0, 1, 1) = (0, 1, 1) \<and>
   hsl_adjust [[[(1, 0, 1 / 12), (0, 1, 1)]]] (350, 10) 30 (1 / 2) (1 / 2) ! 0 ! 0 ! 1 = (0, 1, 1) \<and>
   (hue_of (1, 0, 1 / 12) \<ge> 350 \<or> hue_of (1, 0, 1 / 12) \<le> 10) \<and>
   hsl_adjust_cell (350, 10) 0 0 1 (1, 0, 1 / 12) = (1, 3 / 20, 7 / 30)"
proof -
  have h: "hue_of (0, 1, 1) = 180" "hue_of (1, 0, 1 / 12) = 355"
    by (simp_all add: py_mod_def Let_def)
  have u: "cell_in_unit (0, 1, 1)"
    by (simp add: in_unit_def)
  have a: "hsl_adjust_cell (350, 10) 30 (1 / 2) (1 / 2) (0, 1, 1) = (0, 1, 1)"
    "hsl_adjust [[[(1, 0, 1 / 12), (0, 1, 1)]]] (350, 10) 30 (1 / 2) (1 / 2) ! 0 ! 0 ! 1 = (0, 1, 1)"
    using hsl_wraparound_selection
      [of 10 350 0 "(0, 1, 1)" 30 "1 / 2" "1 / 2" 0 "[[[(1, 0, 1 / 12), (0, 1, 1)]]]" 0 1]
      h u by simp_all
  have "hsl_adjust_cell (350, 10) 0 0 1 (1, 0, 1 / 12) =
      clip_rgb (map_rgb (\<lambda>x. x + clip (saturation_of (1, 0, 1 / 12) * 3) 0 1 * 1 * 0.15)
        (1, 0, 1 / 12))"
    using hsl_wraparound_selection
      [of 10 350 0 "(1, 0, 1 / 12)" 0 0 1 0 "[]" 0 0]
      h by simp
  then have b: "hsl_adjust_cell (350, 10) 0 0 1 (1, 0, 1 / 12) = (1, 3 / 20, 7 / 30)"
    by (simp add: clip_rgb_def clip_def)
  show ?thesis
    using h u a b by simp
qed

section \<open>Luminance under saturation and vibrance\<close>

lemma luminance_in_unit: "cell_in_unit c \<Longrightarrow> in_unit (luminance c)"
proof -
  obtain r g b where c: "c = (r, g, b)" by (cases c)
  assume "cell_in_unit c"
  then have b: "0 \<le> r" "r \<le> 1" "0 \<le> g" "g \<le> 1" "0 \<le> b" "b \<le> 1"
    by (simp_all add: c in_unit_def)
  have "0 \<le> 0.2126 * r + 0.7152 * g + 0.0722 * b"
    using b by simp
  moreover have "2126 / 10000 * r + 7152 / 10000 * g + 722 / 10000 * b \<le> 1"
    using b by linarith
  then have "0.2126 * r + 0.7152 * g + 0.0722 * b \<le> 1"
    by simp
  ultimately show ?thesis
    by (simp add: c in_unit_def)
qed

text \<open>The three weights add up to one, so the unclipped saturation keeps the luminance.\<close>

lemma saturation_unclipped_luminance:
  "luminance (map_rgb (\<lambda>x. luminance c + (x - luminance c) * t) c) = luminance c"
  by (cases c) (simp add: algebra_simps)

lemma mix_in_unit:
  assumes "in_unit l" "in_unit x" "0 \<le> t" "t \<le> 1"
  shows "in_unit (l + (x - l) * t)"
proof -
  have e: "l + (x - l) * t = (1 - t) * l + t * x" by (simp add: algebra_simps)
  have "0 \<le> (1 - t) * l + t * x" using assms by (simp add: in_unit_def)
  moreover have "(1 - t) * l + t * x \<le> (1 - t) * 1 + t * 1"
    using assms by (intro add_mono mult_left_mono) (simp_all add: in_unit_def)
  ultimately show ?thesis unfolding e in_unit_def by simp
qed

lemma saturation_cell_luminance_unclipped:
  assumes "cell_in_unit (map_rgb (\<lambda>x. luminance c + (x - luminance c) * (1 + amount / 100)) c)"
  shows "luminance (adjust_saturation_cell amount c) = luminance c"
  using assms
  by (simp add: adjust_saturation_cell_def Let_def clip_rgb_unit_id saturation_unclipped_luminance)

lemma saturation_cell_luminance:
  assumes "cell_in_unit c" "- 100 \<le> amount" "amount \<le> 0"
  shows "luminance (adjust_saturation_cell amount c) = luminance c"
proof (rule saturation_cell_luminance_unclipped)
  have l: "in_unit (luminance c)" using assms(1) by (rule luminance_in_unit)
  have t: "0 \<le> 1 + amount / 100" "1 + amount / 100 \<le> 1" using assms by simp_all
  obtain r g b where c: "c = (r, g, b)" by (cases c)
  show "cell_in_unit (map_rgb (\<lambda>x. luminance c + (x - luminance c) * (1 + amount / 100)) c)"
    using assms(1) l t unfolding c by (simp add: mix_in_unit del: luminance.simps)
qed

lemma vibrance_gray_cell:
  assumes "in_unit v"
  shows "adjust_vibrance_cell amount (v, v, v) = (v, v, v)"
proof -
  have "luminance (v, v, v) = v" by simp
  then show ?thesis using assms
    by (simp add: adjust_vibrance_cell_def Let_def clip_rgb_def clip_unit_id del: luminance.simps)
qed

lemma luminances_map_grid:
  assumes "grid_in_unit lut" "\<And>c. cell_in_unit c \<Longrightarrow> luminance (f c) = luminance c"
  shows "luminances (map_grid f lut) = luminances lut"
  using assms unfolding luminances_def map_grid_def grid_in_unit_def list_all_iff
  by simp

text \<open>
  Claim C2 as stated fails. The clamp that closes \<open>adjust_saturation\<close> changes the
  luminance of a cell that the scaling pushes out of \<open>[0,1]\<close>: at amount \<open>100\<close> the cell
  \<open>(1, 1/2, 0)\<close> becomes \<open>(1, 2149/5000, 0)\<close> and loses more than \<open>1/20\<close> of luminance.
  \<open>adjust_vibrance\<close> boosts each channel by a factor of its own, so it changes the
  luminance even where nothing is clamped: at amount \<open>-100\<close> the same cell gains more
  than \<open>3/100\<close>.
\<close>

theorem luminance_neutrality_counterexample:
  "grid_in_unit [[[(1, 1 / 2, 0)]]] \<and>
   adjust_saturation [[[(1, 1 / 2, 0)]]] 100 = [[[(1, 2149 / 5000, 0)]]] \<and>
   luminance (1, 1 / 2, 0) - luminance (1, 2149 / 5000, 0) > 1 / 20 \<and>
   adjust_vibrance [[[(1, 1 / 2, 0)]]] (- 100) = [[[(1, 13885397 / 25000000, 0)]]] \<and>
   luminance (1, 13885397 / 25000000, 0) - luminance (1, 1 / 2, 0) > 3 / 100"
  by (simp add: grid_in_unit_def in_unit_def adjust_saturation_def adjust_vibrance_def
      map_grid_def adjust_saturation_cell_def adjust_vibrance_cell_def clip_rgb_def clip_def
      Let_def)

text \<open>
  Claim C2, amended. On a grid whose cells lie in \<open>[0,1]\<close>, \<open>adjust_saturation\<close> with an
  amount in \<open>[-100, 0]\<close> leaves the luminance of every cell unchanged, and with any amount
  it leaves unchanged the luminance of a cell whose scaled channels stay in \<open>[0,1]\<close>.
  \<open>adjust_vibrance\<close> leaves the luminance of every cell unchanged at amount \<open>0\<close>, and
  with any amount it returns a grey cell as it is.
\<close>

theorem saturation_luminance_amended:
  assumes "grid_in_unit lut"
  shows "(- 100 \<le> amount \<and> amount \<le> 0 \<longrightarrow>
            luminances (adjust_saturation lut amount) = luminances lut) \<and>
         (cell_in_unit (map_rgb (\<lambda>x. luminance c + (x - luminance c) * (1 + amount / 100)) c)
            \<longrightarrow> luminance (adjust_saturation_cell amount c) = luminance c) \<and>
         luminances (adjust_vibrance lut 0) = luminances lut \<and>
         (in_unit v \<longrightarrow> adjust_vibrance_cell amount (v, v, v) = (v, v, v))"
proof -
  have a: "luminances (adjust_saturation lut amount) = luminances lut"
    if "- 100 \<le> amount" "amount \<le> 0"
    unfolding adjust_saturation_def using assms that
    by (intro luminances_map_grid) (simp_all add: saturation_cell_luminance)
  have b: "luminances (adjust_vibrance lut 0) = luminances lut"
    unfolding adjust_vibrance_def using assms
    by (simp add: map_grid_id vibrance_zero_cell)
  show ?thesis
    using a b by (simp add: saturation_cell_luminance_unclipped vibrance_gray_cell)
qed

theorem saturation_luminance_amended_witness:
  "grid_in_unit [[[(1, 1 / 2, 0)]]] \<and> - 100 \<le> (- 50 :: real) \<and> (- 50 :: real) \<le> 0 \<and>
   luminances (adjust_saturation [[[(1, 1 / 2, 0)]]] (- 50)) = luminances [[[(1, 1 / 2, 0)]]] \<and>
   cell_in_unit (map_rgb (\<lambda>x. luminance (1, 1 / 2, 0) + (x - luminance (1, 1 / 2, 0)) *
     (1 + (- 50) / 100)) (1, 1 / 2, 0)) \<and>
   luminance (adjust_saturation_cell (- 50) (1, 1 / 2, 0)) = luminance (1, 1 / 2, 0) \<and>
   luminances (adjust_vibrance [[[(1, 1 / 2, 0)]]] 0) = luminances [[[(1, 1 / 2, 0)]]] \<and>
   in_unit (1 / 2) \<and>
   adjust_vibrance_cell (- 50) (1 / 2, 1 / 2, 1 / 2) = (1 / 2, 1 / 2, 1 / 2)"
proof -
  have h: "grid_in_unit [[[(1, 1 / 2, 0)]]]"
    by (simp add: grid_in_unit_def in_unit_def)
  have u: "in_unit (1 / 2)"
    by (simp add: in_unit_def)
  have k: "cell_in_unit (map_rgb (\<lambda>x. luminance (1, 1 / 2, 0) +
      (x - luminance (1, 1 / 2, 0)) * (1 + (- 50) / 100)) (1, 1 / 2, 0))"
    by (simp add: in_unit_def)
  show ?thesis
    using h u k saturation_luminance_amended [OF h, of "- 50" "(1, 1 / 2, 0)" "1 / 2"]
    by simp
qed

section \<open>Tone curve outside its control points\<close>

lemma sorted_hd_Min:
  fixes xs :: "real list"
  assumes "sorted xs" "xs \<noteq> []"
  shows "hd xs = Min (set xs)"
proof -
  obtain y ys where xs: "xs = y # ys" using assms(2) by (cases xs) auto
  have "Min (set xs) = y"
    using assms(1) unfolding xs by (intro Min_eqI) auto
  then show ?thesis by (simp add: xs)
qed

lemma sorted_last_Max:
  fixes xs :: "real list"
  assumes "sorted xs" "xs \<noteq> []"
  shows "last xs = Max (set xs)"
proof -
  have "x \<le> last xs" if "x \<in> set xs" for x
    using assms(1) that
    by (induction xs) (auto split: if_splits)
  then have "Max (set xs) = last xs"
    using assms(2) by (intro Max_eqI) auto
  then show ?thesis by simp
qed

lemma last_filter_keep:
  "xs \<noteq> [] \<Longrightarrow> P (last xs) \<Longrightarrow> last (filter P xs) = last xs"
proof (induction xs)
  case Nil
  then show ?case by simp
next
  case (Cons a xs)
  show ?case
  proof (cases "xs = []")
    case True
    then show ?thesis using Cons.prems by simp
  next
    case False
    then have l: "last (a # xs) = last xs" by simp
    have "last xs \<in> set (filter P xs)"
      using False Cons.prems l by simp
    then have "filter P xs \<noteq> []" by (metis empty_iff empty_set)
    then show ?thesis
      using Cons.IH [OF False] Cons.prems l by simp
  qed
qed

lemma curve_xs:
  fixes points :: "(real \<times> real) list"
  assumes "points \<noteq> []"
  shows "map fst (sort_key fst points) \<noteq> []"
    and "hd (map fst (sort_key fst points)) = Min (fst ` set points)"
    and "last (map fst (sort_key fst points)) = Max (fst ` set points)"
proof -
  let ?xs = "map fst (sort_key fst points)"
  show ne: "?xs \<noteq> []" using assms by (metis list.map_disc_iff set_empty set_sort)
  have s: "sorted ?xs" by (rule sorted_sort_key)
  have e: "set ?xs = fst ` set points" by simp
  show "hd ?xs = Min (fst ` set points)" using sorted_hd_Min [OF s ne] e by simp
  show "last ?xs = Max (fst ` set points)" using sorted_last_Max [OF s ne] e by simp
qed

lemma sorted_points_hd:
  fixes points :: "(real \<times> real) list"
  assumes "points \<noteq> []"
  shows "hd (sort_key fst points) = hd (filter (\<lambda>p. fst p = Min (fst ` set points)) points)"
proof -
  let ?ps = "sort_key fst points"
  let ?m = "Min (fst ` set points)"
  have ne: "?ps \<noteq> []" using curve_xs(1) [OF assms] by simp
  have "fst (hd ?ps) = ?m" using curve_xs(2) [OF assms] ne by (simp add: hd_map)
  then have "hd (filter (\<lambda>p. fst p = ?m) ?ps) = hd ?ps"
    using ne by (cases ?ps) auto
  then show ?thesis by (simp add: sort_key_stable)
qed

lemma sorted_points_last:
  fixes points :: "(real \<times> real) list"
  assumes "points \<noteq> []"
  shows "last (sort_key fst points) = last (filter (\<lambda>p. fst p = Max (fst ` set points)) points)"
proof -
  let ?ps = "sort_key fst points"
  let ?m = "Max (fst ` set points)"
  have ne: "?ps \<noteq> []" using curve_xs(1) [OF assms] by simp
  have "fst (last ?ps) = ?m" using curve_xs(3) [OF assms] ne by (simp add: last_map)
  then have "last (filter (\<lambda>p. fst p = ?m) ?ps) = last ?ps"
    using ne by (simp add: last_filter_keep)
  then show ?thesis by (simp add: sort_key_stable)
qed

text \<open>
  Claim C6. For a non-empty list of control points, \<open>apply_curve\<close> at an input below the
  smallest control-point input returns the output of the first point of the sorted list,
  and at an input above the largest control-point input the output of the last point of
  the sorted list. The sort is stable: the first sorted point is the first point of the
  given list among those with the smallest input, and the last sorted point is the last
  of the given list among those with the largest input.
\<close>

theorem apply_curve_boundaries:
  assumes "points \<noteq> []"
  shows "(x < Min (fst ` set points) \<longrightarrow>
            apply_curve x points = Inr (snd (hd (sort_key fst points)))) \<and>
         (x > Max (fst ` set points) \<longrightarrow>
            apply_curve x points = Inr (snd (last (sort_key fst points)))) \<and>
         hd (sort_key fst points) = hd (filter (\<lambda>p. fst p = Min (fst ` set points)) points) \<and>
         last (sort_key fst points) = last (filter (\<lambda>p. fst p = Max (fst ` set points)) points)"
proof -
  let ?ps = "sort_key fst points"
  have ne: "?ps \<noteq> []" using curve_xs(1) [OF assms] by simp
  have mm: "Min (fst ` set points) \<le> Max (fst ` set points)"
    using assms by simp
  have lo: "apply_curve x points = Inr (snd (hd ?ps))" if "x < Min (fst ` set points)"
    using that mm ne curve_xs(2,3) [OF assms]
    by (simp add: apply_curve_def np_interp_def interp_elem_def Let_def hd_map)
  have hi: "apply_curve x points = Inr (snd (last ?ps))" if "x > Max (fst ` set points)"
    using that ne curve_xs(3) [OF assms]
    by (simp add: apply_curve_def np_interp_def interp_elem_def Let_def last_map)
  show ?thesis
    using lo hi sorted_points_hd [OF assms] sorted_points_last [OF assms] by simp
qed

theorem apply_curve_boundaries_witness:
  "[(1 / 2, 3 / 10), (1 / 5, 1 / 10), (4 / 5, 9 / 10), (1 / 5, 7 / 10)] \<noteq> ([] :: (real \<times> real) list) \<and>
   apply_curve (1 / 10) [(1 / 2, 3 / 10), (1 / 5, 1 / 10), (4 / 5, 9 / 10), (1 / 5, 7 / 10)] = Inr (1 / 10) \<and>
   apply_curve 1 [(1 / 2, 3 / 10), (1 / 5, 1 / 10), (4 / 5, 9 / 10), (1 / 5, 7 / 10)] = Inr (9 / 10)"
  using apply_curve_boundaries [of "[(1 / 2, 3 / 10), (1 / 5, 1 / 10), (4 / 5, 9 / 10), (1 / 5, 7 / 10)]" "1 / 10"]
    apply_curve_boundaries [of "[(1 / 2, 3 / 10), (1 / 5, 1 / 10), (4 / 5, 9 / 10), (1 / 5, 7 / 10)]" 1]
  by simp

section \<open>Loops over the grid\<close>

lemma for_each_rule_gen:
  assumes "P ds s"
    and "\<And>ds i s. P ds s \<Longrightarrow> i \<in> set js \<Longrightarrow> \<exists>s'. body i s = Inr s' \<and> P (ds @ [i]) s'"
  shows "\<exists>s'. for_each js body s = Inr s' \<and> P (ds @ js) s'"
  using assms
proof (induction js arbitrary: ds s)
  case Nil
  then show ?case by simp
next
  case (Cons j js)
  obtain s1 where s1: "body j s = Inr s1" "P (ds @ [j]) s1"
    using Cons.prems(2) [OF Cons.prems(1), of j] by auto
  have "\<exists>s'. for_each js body s1 = Inr s' \<and> P ((ds @ [j]) @ js) s'"
    using s1(2) Cons.prems(2) by (intro Cons.IH) auto
  then show ?case
    using s1(1) by simp
qed

lemma for_each_rule:
  assumes "P [] s"
    and "\<And>ds i s. P ds s \<Longrightarrow> i \<in> set js \<Longrightarrow> \<exists>s'. body i s = Inr s' \<and> P (ds @ [i]) s'"
  shows "\<exists>s'. for_each js body s = Inr s' \<and> P js s'"
  using for_each_rule_gen [of P "[]" s js body] assms by simp

lemma cubic_iff:
  "cubic n lut \<longleftrightarrow>
     length lut = n \<and> (\<forall>b<n. length (lut ! b) = n \<and> (\<forall>g<n. length (lut ! b ! g) = n))"
  unfolding cubic_def list_all_length by auto

lemma set_cell_cubic:
  assumes "cubic n lut" "b < n" "g < n" "r < n"
  shows "\<exists>lut'. set_cell lut b g r v = Inr lut' \<and> cubic n lut' \<and>
           (\<forall>b'<n. \<forall>g'<n. \<forall>r'<n. lut' ! b' ! g' ! r' =
              (if b' = b \<and> g' = g \<and> r' = r then v else lut ! b' ! g' ! r'))"
proof -
  let ?lut' = "lut[b := (lut ! b)[g := (lut ! b ! g)[r := v]]]"
  have c: "length lut = n" "\<And>b. b < n \<Longrightarrow> length (lut ! b) = n"
    "\<And>b g. b < n \<Longrightarrow> g < n \<Longrightarrow> length (lut ! b ! g) = n"
    using assms(1) by (simp_all add: cubic_iff)
  have 1: "set_cell lut b g r v = Inr ?lut'"
    using assms c by (simp add: set_cell_def)
  have 2: "cubic n ?lut'"
    unfolding cubic_iff using c assms(2-4) by (auto simp: nth_list_update)
  have 3: "?lut' ! b' ! g' ! r' = (if b' = b \<and> g' = g \<and> r' = r then v else lut ! b' ! g' ! r')"
    if "b' < n" "g' < n" "r' < n" for b' g' r'
    using that c assms by (simp add: nth_list_update)
  show ?thesis using 1 2 3 by blast
qed

lemma fill_row:
  assumes "cubic n s0" "b < n" "g < n"
  shows "\<exists>s. for_each [0..<n] (\<lambda>r lut. set_cell lut b g r (f b g r)) s0 = Inr s \<and> cubic n s \<and>
           (\<forall>b'<n. \<forall>g'<n. \<forall>r'<n. s ! b' ! g' ! r' =
              (if b' = b \<and> g' = g then f b g r' else s0 ! b' ! g' ! r'))"
proof -
  let ?P = "\<lambda>ds s. cubic n s \<and> (\<forall>b'<n. \<forall>g'<n. \<forall>r'<n. s ! b' ! g' ! r' =
              (if b' = b \<and> g' = g \<and> r' \<in> set ds then f b g r' else s0 ! b' ! g' ! r'))"
  have "\<exists>s. for_each [0..<n] (\<lambda>r lut. set_cell lut b g r (f b g r)) s0 = Inr s \<and> ?P [0..<n] s"
  proof (rule for_each_rule [where P = ?P])
    show "?P [] s0" using assms(1) by simp
  next
    fix ds i s
    assume p: "?P ds s" and i: "i \<in> set [0..<n]"
    then have "i < n" by simp
    then obtain s' where s': "set_cell s b g i (f b g i) = Inr s'" "cubic n s'"
      "\<forall>b'<n. \<forall>g'<n. \<forall>r'<n. s' ! b' ! g' ! r' =
              (if b' = b \<and> g' = g \<and> r' = i then f b g i else s ! b' ! g' ! r')"
      using set_cell_cubic [of n s b g i "f b g i"] p assms(2,3) by blast
    have "?P (ds @ [i]) s'"
      using s'(2,3) p by auto
    then show "\<exists>s'. set_cell s b g i (f b g i) = Inr s' \<and> ?P (ds @ [i]) s'"
      using s'(1) by blast
  qed
  then show ?thesis by auto
qed

lemma fill_plane:
  assumes "cubic n s0" "b < n"
  shows "\<exists>s. for_each [0..<n] (\<lambda>g. for_each [0..<n] (\<lambda>r lut. set_cell lut b g r (f b g r))) s0 = Inr s
           \<and> cubic n s \<and>
           (\<forall>b'<n. \<forall>g'<n. \<forall>r'<n. s ! b' ! g' ! r' =
              (if b' = b then f b g' r' else s0 ! b' ! g' ! r'))"
proof -
  let ?body = "\<lambda>g. for_each [0..<n] (\<lambda>r lut. set_cell lut b g r (f b g r))"
  let ?P = "\<lambda>ds s. cubic n s \<and> (\<forall>b'<n. \<forall>g'<n. \<forall>r'<n. s ! b' ! g' ! r' =
              (if b' = b \<and> g' \<in> set ds then f b g' r' else s0 ! b' ! g' ! r'))"
  have "\<exists>s. for_each [0..<n] ?body s0 = Inr s \<and> ?P [0..<n] s"
  proof (rule for_each_rule [where P = ?P])
    show "?P [] s0" using assms(1) by simp
  next
    fix ds i s
    assume p: "?P ds s" and i: "i \<in> set [0..<n]"
    then have "i < n" by simp
    then obtain s' where s': "?body i s = Inr s'" "cubic n s'"
      "\<forall>b'<n. \<forall>g'<n. \<forall>r'<n. s' ! b' ! g' ! r' =
              (if b' = b \<and> g' = i then f b i r' else s ! b' ! g' ! r')"
      using fill_row [of n s b i f] p assms(2) by blast
    have "?P (ds @ [i]) s'"
      using s'(2,3) p by auto
    then show "\<exists>s'. ?body i s = Inr s' \<and> ?P (ds @ [i]) s'"
      using s'(1) by blast
  qed
  then show ?thesis by auto
qed

lemma fill_cube:
  assumes "cubic n s0"
  shows "\<exists>s. for_each [0..<n] (\<lambda>b. for_each [0..<n] (\<lambda>g. for_each [0..<n]
                (\<lambda>r lut. set_cell lut b g r (f b g r)))) s0 = Inr s
           \<and> cubic n s \<and> (\<forall>b'<n. \<forall>g'<n. \<forall>r'<n. s ! b' ! g' ! r' = f b' g' r')"
proof -
  let ?body = "\<lambda>b. for_each [0..<n] (\<lambda>g. for_each [0..<n] (\<lambda>r lut. set_cell lut b g r (f b g r)))"
  let ?P = "\<lambda>ds s. cubic n s \<and> (\<forall>b'<n. \<forall>g'<n. \<forall>r'<n. s ! b' ! g' ! r' =
              (if b' \<in> set ds then f b' g' r' else s0 ! b' ! g' ! r'))"
  have "\<exists>s. for_each [0..<n] ?body s0 = Inr s \<and> ?P [0..<n] s"
  proof (rule for_each_rule [where P = ?P])
    show "?P [] s0" using assms(1) by simp
  next
    fix ds i s
    assume p: "?P ds s" and i: "i \<in> set [0..<n]"
    then have "i < n" by simp
    then obtain s' where s': "?body i s = Inr s'" "cubic n s'"
      "\<forall>b'<n. \<forall>g'<n. \<forall>r'<n. s' ! b' ! g' ! r' =
              (if b' = i then f i g' r' else s ! b' ! g' ! r')"
      using fill_plane [of n s i f] p by blast
    have "?P (ds @ [i]) s'"
      using s'(2,3) p by auto
    then show "\<exists>s'. ?body i s = Inr s' \<and> ?P (ds @ [i]) s'"
      using s'(1) by blast
  qed
  then show ?thesis by auto
qed

lemma np_zeros_cubic: "0 \<le> sz \<Longrightarrow> \<exists>z. np_zeros sz = Inr z \<and> cubic (nat sz) z"
  by (simp add: np_zeros_def cubic_def list_all_iff)

lemma identity_lut_loops:
  assumes "2 \<le> sz"
  shows "identity_lut sz =
     (case np_zeros sz of Inl e \<Rightarrow> Inl e | Inr lut \<Rightarrow>
        for_each [0..<nat sz] (\<lambda>b. for_each [0..<nat sz] (\<lambda>g. for_each [0..<nat sz]
          (\<lambda>r lut. set_cell lut b g r
             (real r / real_of_int (sz - 1), real g / real_of_int (sz - 1),
              real b / real_of_int (sz - 1))))) lut)"
proof -
  have "sz - 1 \<noteq> 0" using assms by simp
  then have d: "py_div a (sz - 1) = Inr (real_of_int a / real_of_int (sz - 1))" for a
    by (simp add: py_div_def)
  show ?thesis
    unfolding identity_lut_def d by (simp cong: sum.case_cong)
qed

lemma identity_lut_ok:
  assumes "2 \<le> N"
  shows "\<exists>lut. identity_lut N = Inr lut \<and> cubic (nat N) lut \<and>
           (\<forall>bi<nat N. \<forall>gi<nat N. \<forall>ri<nat N.
              lut ! bi ! gi ! ri =
                (real ri / real_of_int (N - 1), real gi / real_of_int (N - 1),
                 real bi / real_of_int (N - 1)))"
proof -
  obtain z where z: "np_zeros N = Inr z" "cubic (nat N) z"
    using np_zeros_cubic [of N] assms by auto
  show ?thesis
    unfolding identity_lut_loops [OF assms] z(1)
    using fill_cube [OF z(2), of "\<lambda>b g r. (real r / real_of_int (N - 1),
      real g / real_of_int (N - 1), real b / real_of_int (N - 1))"]
    by simp
qed

section \<open>The identity grid\<close>

text \<open>
  Claim C3. For every size \<open>N \<ge> 2\<close>, \<open>identity_lut N\<close> returns a grid of shape
  \<open>(N, N, N, 3)\<close> whose cell at index \<open>(bi, gi, ri)\<close>, for all indices below \<open>N\<close>, is the
  triple \<open>(ri / (N - 1), gi / (N - 1), bi / (N - 1))\<close>.
\<close>

theorem identity_lut_cells:
  assumes "2 \<le> N"
  shows "\<exists>lut. identity_lut N = Inr lut \<and> cubic (nat N) lut \<and>
           (\<forall>bi<nat N. \<forall>gi<nat N. \<forall>ri<nat N.
              lut ! bi ! gi ! ri =
                (real ri / real_of_int (N - 1), real gi / real_of_int (N - 1),
                 real bi / real_of_int (N - 1)))"
  using assms by (rule identity_lut_ok)

theorem identity_lut_cells_witness:
  "(2 :: int) \<le> 3 \<and>
   (\<exists>lut. identity_lut 3 = Inr lut \<and> cubic 3 lut \<and> lut ! 2 ! 0 ! 1 = (1 / 2, 0, 1))"
proof -
  obtain lut where l: "identity_lut 3 = Inr lut" "cubic (nat 3) lut"
    "\<forall>bi<nat 3. \<forall>gi<nat 3. \<forall>ri<nat 3.
       lut ! bi ! gi ! ri =
         (real ri / real_of_int (3 - 1), real gi / real_of_int (3 - 1),
          real bi / real_of_int (3 - 1))"
    using identity_lut_cells [of 3] by auto
  have "lut ! 2 ! 0 ! 1 = (1 / 2, 0, 1)"
    using l(3) [rule_format, of 2 0 1] by simp
  then show ?thesis
    using l(1,2) by simp
qed

section \<open>Sizes below two\<close>

text \<open>
  Claim C8 as stated fails. With size \<open>0\<close> nothing fails: no loop body runs, so no
  division takes place and \<open>identity_lut\<close> returns the empty grid; the operators and the
  tone curve map the empty grid to itself and the encoder writes a file of the five
  header lines, with \<open>LUT_3D_SIZE 0\<close>.
\<close>

theorem size_zero_counterexample:
  "identity_lut 0 = Inr [] \<and>
   adjust_exposure [] 0.5 = [] \<and>
   hsl_adjust [] (15, 45) 0 (- 0.10) 0.20 = [] \<and>
   curve_channels [(0.0, 0.05), (1.0, 0.98)] [] = Inr [] \<and>
   write_cube [] ''Vintage'' = Inr (unlines (spec_header ''Vintage'' 0))"
  by (simp add: identity_lut_def np_zeros_def adjust_exposure_def hsl_adjust_def map_grid_def
      curve_channels_def apply_curve_arr_def np_interp_arr_def channel_def set_channel_def
      write_cube_def unlines_def spec_header_def newline_def dquote_def show_nat.simps Let_def)

text \<open>
  Claim C8, amended. \<open>identity_lut\<close> with size \<open>1\<close> fails with the ZeroDivisionError of
  its first division, and with a negative size it fails with the ValueError of the array
  allocation. With size \<open>0\<close> it returns the empty grid and no error.
\<close>

theorem identity_lut_small_sizes:
  "identity_lut 1 = Inl ZeroDivisionError \<and>
   (sz < 0 \<longrightarrow> identity_lut sz = Inl ValueError) \<and>
   identity_lut 0 = Inr []"
  by (simp add: identity_lut_def np_zeros_def py_div_def)

theorem identity_lut_small_sizes_witness:
  "(- 1 :: int) < 0 \<and> identity_lut (- 1) = Inl ValueError"
  using identity_lut_small_sizes [of "- 1"] by simp

section \<open>Numbers as text\<close>

lemma digit_char_is_digit: "d < 10 \<Longrightarrow> is_digit (digit_char d)"
proof -
  assume "d < 10"
  then have "d \<in> {0, 1, 2, 3, 4, 5, 6, 7, 8, 9}" by auto
  then show ?thesis
    by (auto simp: is_digit_def digit_char_def)
qed

lemma show_nat_digits: "list_all is_digit (show_nat n)"
proof (induction n rule: show_nat.induct)
  case (1 n)
  show ?case
  proof (cases "n < 10")
    case True
    then show ?thesis by (subst show_nat.simps) (simp add: digit_char_is_digit)
  next
    case False
    then show ?thesis
      using "1.IH" by (subst show_nat.simps) (simp add: digit_char_is_digit)
  qed
qed

lemma show_nat_length: "0 < k \<Longrightarrow> n < 10 ^ k \<Longrightarrow> length (show_nat n) \<le> k"
proof (induction n arbitrary: k rule: show_nat.induct)
  case (1 n)
  show ?case
  proof (cases "n < 10")
    case True
    then show ?thesis using "1.prems" by (subst show_nat.simps) simp
  next
    case False
    then obtain j where k: "k = Suc j"  using "1.prems"(1) by (cases k) auto
    have "j \<noteq> 0" using False "1.prems"(2) k by (cases j) auto
    then have j: "0 < j" by simp
    have "n div 10 < 10 ^ j" using "1.prems"(2) k by (simp add: less_mult_imp_div_less mult.commute)
    then have "length (show_nat (n div 10)) \<le> j" using "1.IH" [OF False j] by simp
    then show ?thesis using False k by (subst show_nat.simps) simp
  qed
qed

lemma show_nat_one_digit: "n < 10 \<Longrightarrow> show_nat n = [digit_char n]"
  by (subst show_nat.simps) simp

lemma show_nat_nonempty: "show_nat n \<noteq> []"
  by (subst show_nat.simps) simp

lemma format_6f_shape:
  assumes "0 \<le> x"
  shows "\<exists>ip fr. format_6f x = ip @ ''.'' @ fr \<and> ip \<noteq> [] \<and> list_all is_digit ip \<and>
            length fr = 6 \<and> list_all is_digit fr"
proof -
  define n where "n = nat (round_half_even (\<bar>x\<bar> * 10 ^ 6))"
  define frac where "frac = show_nat (n mod 10 ^ 6)"
  define fr where "fr = replicate (6 - length frac) (CHR ''0'') @ frac"
  have "length frac \<le> 6" unfolding frac_def by (rule show_nat_length) simp_all
  then have l: "length fr = 6" by (simp add: fr_def)
  have z: "is_digit (CHR ''0'')" by (simp add: is_digit_def)
  have "list_all is_digit (replicate (6 - length frac) (CHR ''0''))"
    using z by (simp add: list_all_iff)
  then have d: "list_all is_digit fr"
    using show_nat_digits [of "n mod 10 ^ 6"] by (simp add: fr_def frac_def)
  have "format_6f x = show_nat (n div 10 ^ 6) @ ''.'' @ fr"
    using assms by (simp add: format_6f_def Let_def n_def frac_def fr_def)
  then show ?thesis
    using l d show_nat_nonempty show_nat_digits by blast
qed

lemma format_6f_six_decimals:
  assumes "0 \<le> x"
  shows "six_decimals (format_6f x)"
proof -
  obtain ip fr where f: "format_6f x = ip @ ''.'' @ fr" "ip \<noteq> []" "list_all is_digit ip"
    "length fr = 6" "list_all is_digit fr"
    using format_6f_shape [OF assms] by blast
  have n: "length (format_6f x) - 7 = length ip" "length (format_6f x) - 6 = Suc (length ip)"
    using f by simp_all
  have p: "Suc 0 \<le> length ip" using f(2) by (cases ip) simp_all
  have "8 \<le> length (format_6f x)" using f(4) p unfolding f(1) by simp
  then show ?thesis
    unfolding six_decimals_def n using f by (simp add: nth_append)
qed

section \<open>The encoded file\<close>

lemma for_each_append:
  assumes "\<And>i f. i \<in> set js \<Longrightarrow> body i f = Inr (f @ g i)"
  shows "for_each js body f = Inr (f @ concat (map g js))"
  using assms
proof (induction js arbitrary: f)
  case Nil
  then show ?case by simp
next
  case (Cons j js)
  have "for_each js body (f @ g j) = Inr ((f @ g j) @ concat (map g js))"
    using Cons.prems by (intro Cons.IH) simp
  then show ?case
    using Cons.prems [of j f] by simp
qed

lemma upt_Suc_mult: "[0..<Suc n * m] = [0..<n * m] @ map (\<lambda>j. j + n * m) [0..<m]"
proof -
  have "[0..<n * m + m] = [0..<n * m] @ [n * m..<n * m + m]"
    by (rule upt_add_eq_append) simp
  moreover have "map (\<lambda>j. j + n * m) [0..<m] = [n * m..<m + n * m]"
    by (rule map_add_upt)
  ultimately show ?thesis
    by (simp add: add.commute)
qed


lemma concat_upt_pairs:
  "concat (map (\<lambda>i. concat (map (\<lambda>j. F i j) [0..<m])) [0..<n]) =
   concat (map (\<lambda>k. F (k div m) (k mod m)) [0..<n * m])"
proof (induction n)
  case 0
  then show ?case by simp
next
  case (Suc n)
  have a: "map (\<lambda>k. F (k div m) (k mod m)) (map (\<lambda>j. j + n * m) [0..<m]) =
      map (\<lambda>j. F n j) [0..<m]"
    by (simp add: o_def)
  have "concat (map (\<lambda>k. F (k div m) (k mod m)) [0..<Suc n * m]) =
      concat (map (\<lambda>k. F (k div m) (k mod m)) [0..<n * m]) @
      concat (map (\<lambda>j. F n j) [0..<m])"
    unfolding upt_Suc_mult map_append concat_append a ..
  then show ?case
    using Suc.IH by simp
qed


lemma concat_upt_triples:
  "concat (map (\<lambda>b. concat (map (\<lambda>g. concat (map (\<lambda>r. L b g r) [0..<N])) [0..<N])) [0..<N]) =
   concat (map (\<lambda>k. L (k div (N * N)) (k div N mod N) (k mod N)) [0..<N ^ 3])"
proof -
  have i: "k mod (N * N) div N = k div N mod N" "k mod (N * N) mod N = k mod N" for k
    by (cases "N = 0"; simp add: mod_mult2_eq)+
  have "concat (map (\<lambda>b. concat (map (\<lambda>g. concat (map (\<lambda>r. L b g r) [0..<N])) [0..<N])) [0..<N]) =
      concat (map (\<lambda>b. concat (map (\<lambda>k. L b (k div N) (k mod N)) [0..<N * N])) [0..<N])"
    by (simp add: concat_upt_pairs)
  also have "\<dots> = concat (map (\<lambda>k. L (k div (N * N)) (k mod (N * N) div N) (k mod (N * N) mod N))
      [0..<N * (N * N)])"
    by (rule concat_upt_pairs)
  also have "\<dots> = concat (map (\<lambda>k. L (k div (N * N)) (k div N mod N) (k mod N)) [0..<N ^ 3])"
    unfolding i by (simp add: power3_eq_cube mult.assoc)
  finally show ?thesis .
qed

lemma cube_line_triple: "cube_line c = spec_triple c @ newline"
  by (cases c) simp

lemma cell_at_cubic:
  assumes "cubic N lut" "b < N" "g < N" "r < N"
  shows "cell_at lut b g r = Inr (lut ! b ! g ! r)"
  using assms by (simp add: cell_at_def cubic_iff)

lemma write_cube_loops:
  assumes "cubic N lut"
  shows "for_each [0..<N] (\<lambda>b. for_each [0..<N] (\<lambda>g. for_each [0..<N] (\<lambda>r f.
           case cell_at lut b g r of Inl e \<Rightarrow> Inl e | Inr rgb \<Rightarrow> Inr (f @ cube_line rgb)))) f0 =
         Inr (f0 @ concat (map (\<lambda>b. concat (map (\<lambda>g. concat (map (\<lambda>r.
           cube_line (lut ! b ! g ! r)) [0..<N])) [0..<N])) [0..<N]))"
proof (rule for_each_append)
  fix b f
  assume b: "b \<in> set [0..<N]"
  show "for_each [0..<N] (\<lambda>g. for_each [0..<N] (\<lambda>r f.
           case cell_at lut b g r of Inl e \<Rightarrow> Inl e | Inr rgb \<Rightarrow> Inr (f @ cube_line rgb))) f =
        Inr (f @ concat (map (\<lambda>g. concat (map (\<lambda>r. cube_line (lut ! b ! g ! r)) [0..<N])) [0..<N]))"
  proof (rule for_each_append)
    fix g f
    assume g: "g \<in> set [0..<N]"
    show "for_each [0..<N] (\<lambda>r f.
           case cell_at lut b g r of Inl e \<Rightarrow> Inl e | Inr rgb \<Rightarrow> Inr (f @ cube_line rgb)) f =
        Inr (f @ concat (map (\<lambda>r. cube_line (lut ! b ! g ! r)) [0..<N]))"
    proof (rule for_each_append)
      fix r f
      assume r: "r \<in> set [0..<N]"
      show "(case cell_at lut b g r of Inl e \<Rightarrow> Inl e | Inr rgb \<Rightarrow> Inr (f @ cube_line rgb)) =
          Inr (f @ cube_line (lut ! b ! g ! r))"
        using cell_at_cubic [OF assms, of b g r] b g r by simp
    qed
  qed
qed

lemma write_cube_lines:
  assumes "cubic N lut"
  shows "write_cube lut title = Inr (unlines (spec_header title N @ spec_data lut N))"
proof -
  have n: "length lut = N" using assms by (simp add: cubic_def)
  have d: "unlines (spec_data lut N) =
      concat (map (\<lambda>k. cube_line (lut ! (k div (N * N)) ! (k div N mod N) ! (k mod N))) [0..<N ^ 3])"
    by (simp add: unlines_def spec_data_def o_def cube_line_triple newline_def)
  have u: "unlines (xs @ ys) = unlines xs @ unlines ys" for xs ys
    by (simp add: unlines_def)
  show ?thesis
    unfolding write_cube_def Let_def n write_cube_loops [OF assms] concat_upt_triples u d
    by (simp add: unlines_def spec_header_def newline_def dquote_def)
qed

lemma spec_data_length: "length (spec_data lut N) = N ^ 3"
  by (simp add: spec_data_def)

section \<open>Reading printed numbers back\<close>

lemma digit_value_char: "d < 10 \<Longrightarrow> digit_value (digit_char d) = d"
proof -
  assume "d < 10"
  then have "d \<in> {0, 1, 2, 3, 4, 5, 6, 7, 8, 9}" by auto
  then show ?thesis
    by (auto simp: digit_value_def digit_char_def)
qed

lemma decode_nat_snoc: "decode_nat (s @ [c]) = 10 * decode_nat s + digit_value c"
  by (simp add: decode_nat_def)

lemma decode_show_nat: "decode_nat (show_nat n) = n"
proof (induction n rule: show_nat.induct)
  case (1 n)
  show ?case
  proof (cases "n < 10")
    case True
    then show ?thesis
      by (subst show_nat.simps) (simp add: decode_nat_def digit_value_char)
  next
    case False
    have "decode_nat (show_nat (n div 10) @ [digit_char (n mod 10)]) = 10 * (n div 10) + n mod 10"
      unfolding decode_nat_snoc using "1.IH" [OF False] by (simp add: digit_value_char)
    then show ?thesis
      using False by (subst show_nat.simps) simp
  qed
qed

lemma decode_nat_zeros: "decode_nat (replicate k (CHR ''0'') @ s) = decode_nat s"
proof -
  have "foldl (\<lambda>a c. 10 * a + digit_value c) 0 (replicate k (CHR ''0'')) = 0"
  proof (induction k)
    case 0
    show ?case by simp
  next
    case (Suc k)
    have "replicate (Suc k) (CHR ''0'') = replicate k (CHR ''0'') @ [CHR ''0'']"
      by (simp add: replicate_append_same)
    then show ?case
      using Suc by (simp add: digit_value_def)
  qed
  then show ?thesis
    by (simp add: decode_nat_def)
qed

lemma round_half_even_near: "\<bar>real_of_int (round_half_even y) - y\<bar> \<le> 1 / 2"
proof -
  have "of_int \<lfloor>y\<rfloor> \<le> y" "y < of_int \<lfloor>y\<rfloor> + 1" by linarith+
  then show ?thesis
    by (auto simp: round_half_even_def Let_def)
qed

lemma round_half_even_nonneg: "0 \<le> y \<Longrightarrow> 0 \<le> round_half_even y"
  by (auto simp: round_half_even_def Let_def)

lemma scale_near:
  fixes a x k :: real
  assumes "\<bar>a - x * k\<bar> \<le> 1 / 2" "0 < k"
  shows "\<bar>a / k - x\<bar> \<le> 1 / (2 * k)"
proof -
  have "a / k - x = (a - x * k) / k"
    using assms(2) by (simp add: diff_divide_distrib)
  then have "\<bar>a / k - x\<bar> = \<bar>a - x * k\<bar> / k"
    using assms(2) by simp
  also have "\<dots> \<le> (1 / 2) / k"
    using assms by (intro divide_right_mono) simp_all
  finally show ?thesis by simp
qed

lemma split_million:
  "real n / 1000000 = real (n div 1000000) + real (n mod 1000000) / 1000000"
proof -
  have "n = n div 1000000 * 1000000 + n mod 1000000"
    by simp
  then have "real n = real (n div 1000000 * 1000000 + n mod 1000000)"
    by simp
  then have "real n = real (n div 1000000) * 1000000 + real (n mod 1000000)"
    by (simp only: of_nat_add of_nat_mult of_nat_numeral)
  then show ?thesis
    by (simp add: add_divide_distrib)
qed

lemma format_6f_prints:
  assumes "0 \<le> x"
  shows "prints_6f x (format_6f x)"
proof -
  define n where "n = nat (round_half_even (\<bar>x\<bar> * 10 ^ 6))"
  define frac where "frac = show_nat (n mod 10 ^ 6)"
  define fr where "fr = replicate (6 - length frac) (CHR ''0'') @ frac"
  define ip where "ip = show_nat (n div 10 ^ 6)"
  have "length frac \<le> 6" unfolding frac_def by (rule show_nat_length) simp_all
  then have l: "length fr = 6" by (simp add: fr_def)
  have f: "format_6f x = ip @ ''.'' @ fr"
    using assms by (simp add: format_6f_def Let_def n_def frac_def fr_def ip_def)
  have t: "take (length (format_6f x) - 7) (format_6f x) = ip"
    "drop (length (format_6f x) - 6) (format_6f x) = fr"
    unfolding f using l by simp_all
  have e: "decode_6f (format_6f x) = real (n div 1000000) + real (n mod 1000000) / 1000000"
    unfolding decode_6f_def t
    by (simp add: ip_def fr_def frac_def decode_show_nat decode_nat_zeros)
  have d: "decode_6f (format_6f x) = real n / 1000000"
    by (simp only: e split_million [of n])
  have "real n = real_of_int (round_half_even (x * 1000000))"
    using assms round_half_even_nonneg [of "x * 1000000"] by (simp add: n_def)
  then have "\<bar>real n - x * 1000000\<bar> \<le> 1 / 2"
    using round_half_even_near [of "x * 1000000"] by simp
  then have "\<bar>real n / 1000000 - x\<bar> \<le> 1 / (2 * 1000000)"
    by (rule scale_near) simp
  then have "\<bar>real n / 1000000 - x\<bar> \<le> 1 / 2000000"
    by simp
  then have "\<bar>decode_6f (format_6f x) - x\<bar> \<le> 1 / 2000000"
    unfolding d .
  then show ?thesis
    unfolding prints_6f_def
    using format_6f_six_decimals [OF assms] by blast
qed

section \<open>Rounding to doubles\<close>

lemma round_half_even_int: "round_half_even (of_int n) = n"
  by (simp add: round_half_even_def)

lemma round_half_even_cases: "round_half_even y = \<lfloor>y\<rfloor> \<or> round_half_even y = \<lfloor>y\<rfloor> + 1"
  by (simp add: round_half_even_def Let_def)

lemma round_half_even_mono:
  assumes "a \<le> b"
  shows "round_half_even a \<le> round_half_even b"
proof (cases "\<lfloor>a\<rfloor> = \<lfloor>b\<rfloor>")
  case True
  have "a - of_int \<lfloor>a\<rfloor> \<le> b - of_int \<lfloor>b\<rfloor>"
    using assms True by simp
  then show ?thesis
    using True by (auto simp: round_half_even_def Let_def)
next
  case False
  then have "\<lfloor>a\<rfloor> < \<lfloor>b\<rfloor>"
    using assms floor_mono [of a b] by linarith
  then show ?thesis
    using round_half_even_cases [of a] round_half_even_cases [of b] by linarith
qed

lemma floor_bitlen_bounds:
  fixes z :: real
  assumes "1 \<le> z"
  shows "2 ^ nat (bitlen \<lfloor>z\<rfloor> - 1) \<le> z" and "z < 2 ^ nat (bitlen \<lfloor>z\<rfloor>)"
    and "1 \<le> bitlen \<lfloor>z\<rfloor>"
proof -
  let ?n = "\<lfloor>z\<rfloor>"
  have n: "0 < ?n" using assms by linarith
  then show "1 \<le> bitlen ?n"
    by (simp add: bitlen_alt_def)
  have lo: "2 ^ nat (bitlen ?n - 1) \<le> ?n" and hi: "?n < 2 ^ nat (bitlen ?n)"
    using bitlen_bounds [OF n] by simp_all
  have "real_of_int (2 ^ nat (bitlen ?n - 1)) \<le> real_of_int ?n"
    using lo by linarith
  also have "\<dots> \<le> z"
    by linarith
  finally show "2 ^ nat (bitlen ?n - 1) \<le> z"
    by simp
  have "?n + 1 \<le> 2 ^ nat (bitlen ?n)"
    using hi by linarith
  then have "real_of_int (?n + 1) \<le> real_of_int (2 ^ nat (bitlen ?n))"
    by linarith
  then have u: "real_of_int ?n + 1 \<le> 2 ^ nat (bitlen ?n)"
    by simp
  have "z < real_of_int ?n + 1"
    by linarith
  then show "z < 2 ^ nat (bitlen ?n)"
    using u by linarith
qed

lemma scaled_exponent:
  fixes b :: int
  assumes "1 \<le> b"
  shows "2 ^ nat (b - 1) = (2 :: real) powi (b - 1075) * 2 powi 1074"
    and "2 ^ nat b = (2 :: real) powi (b - 1075 + 1) * 2 powi 1074"
proof -
  have "(2 :: real) powi (b - 1075 + 1074) = 2 powi (b - 1075) * 2 powi 1074"
    by (rule power_int_add) simp
  moreover have "b - 1075 + 1074 = b - 1"
    by simp
  moreover have "(2 :: real) powi (b - 1) = 2 ^ nat (b - 1)"
    using assms by (simp add: power_int_def)
  ultimately show "2 ^ nat (b - 1) = (2 :: real) powi (b - 1075) * 2 powi 1074"
    by (simp only:)
  have "(2 :: real) powi (b - 1075 + 1 + 1074) = 2 powi (b - 1075 + 1) * 2 powi 1074"
    by (rule power_int_add) simp
  moreover have "b - 1075 + 1 + 1074 = b"
    by simp
  moreover have "(2 :: real) powi b = 2 ^ nat b"
    using assms by (simp add: power_int_def)
  ultimately show "2 ^ nat b = (2 :: real) powi (b - 1075 + 1) * 2 powi 1074"
    by (simp only:)
qed

lemma float_exponent_bounds:
  assumes "1 \<le> y * 2 powi 1074"
  shows "2 powi (float_exponent y) \<le> y" and "y < 2 powi (float_exponent y + 1)"
proof -
  define M :: real where "M = 2 powi 1074"
  have M: "0 < M" by (simp add: M_def)
  have f: "float_exponent y = bitlen \<lfloor>y * M\<rfloor> - 1075"
    by (simp add: float_exponent_def M_def power_int_def)
  have z: "1 \<le> y * M" using assms by (simp add: M_def)
  note b = floor_bitlen_bounds [OF z]
  note s = scaled_exponent [OF b(3), folded M_def]
  have "2 powi (float_exponent y) * M \<le> y * M"
    using b(1) unfolding f s(1) .
  then show "2 powi (float_exponent y) \<le> y"
    using M by simp
  have "y * M < 2 powi (float_exponent y + 1) * M"
    using b(2) unfolding f s(2) .
  then show "y < 2 powi (float_exponent y + 1)"
    using M by simp
qed

lemma power_int_less_exp:
  fixes e e' :: int
  assumes "(2 :: real) powi e < 2 powi e'"
  shows "e < e'"
proof (rule ccontr)
  assume "\<not> e < e'"
  then have "e' \<le> e" by simp
  then have "(2 :: real) powi e' \<le> 2 powi e"
    by (rule power_int_increasing) simp
  then show False using assms by simp
qed

lemma power_int_binade_unique:
  fixes y :: real and e e' :: int
  assumes "2 powi e \<le> y" "y < 2 powi (e + 1)" "2 powi e' \<le> y" "y < 2 powi (e' + 1)"
  shows "e = e'"
proof -
  have "(2 :: real) powi e < 2 powi (e' + 1)" using assms by linarith
  then have "e < e' + 1" by (rule power_int_less_exp)
  moreover have "(2 :: real) powi e' < 2 powi (e + 1)" using assms by linarith
  then have "e' < e + 1" by (rule power_int_less_exp)
  ultimately show ?thesis by linarith
qed


lemma normal_exponent:
  assumes "2 powi e \<le> y" "y < 2 powi (e + 1)" "- 1074 \<le> e"
  shows "float_exponent y = e"
proof -
  have "(2 :: real) powi 0 \<le> 2 powi (e + 1074)"
    using assms(3) by (intro power_int_increasing) simp_all
  moreover have "(2 :: real) powi (e + 1074) = 2 powi e * 2 powi 1074"
    by (rule power_int_add) simp
  ultimately have "1 \<le> 2 powi e * (2 :: real) powi 1074"
    by (simp only: power_int_0_right)
  also have "\<dots> \<le> y * 2 powi 1074"
    using assms(1) by (intro mult_right_mono zero_le_power_int) simp_all
  finally have "1 \<le> y * 2 powi 1074" .
  then show ?thesis
    using float_exponent_bounds power_int_binade_unique assms(1,2) by blast
qed

lemma fl_eval:
  fixes k :: nat
  assumes "2 ^ 52 \<le> \<bar>x\<bar> * 2 ^ k" "\<bar>x\<bar> * 2 ^ k < 2 ^ 53" "k \<le> 1074"
  shows "fl x = real_of_int (round_half_even (x * 2 ^ k)) / 2 ^ k"
proof -
  have p: "(2 :: real) powi (52 - int k) = 2 ^ 52 / 2 ^ k"
    "(2 :: real) powi (52 - int k + 1) = 2 ^ 53 / 2 ^ k"
    by (simp_all add: power_int_diff power_int_add)
  have "2 powi (52 - int k) \<le> \<bar>x\<bar>" "\<bar>x\<bar> < 2 powi (52 - int k + 1)"
    unfolding p using assms(1,2) by (simp_all add: field_simps)
  then have "float_exponent \<bar>x\<bar> = 52 - int k"
    using assms(3) by (intro normal_exponent) simp_all
  then have "clamped_exponent \<bar>x\<bar> - 52 = - int k"
    using assms(3) by (simp add: clamped_exponent_def)
  then have "fl x = real_of_int (round_half_even (x / 2 powi (- int k))) * 2 powi (- int k)"
    by (simp add: fl_def Let_def)
  moreover have "(2 :: real) powi (- int k) = 1 / 2 ^ k"
    by (simp add: power_int_minus_divide)
  ultimately show ?thesis
    by simp
qed

lemma fl_zero: "fl 0 = 0"
  by (simp add: fl_def Let_def round_half_even_def)


lemma fl_quantum:
  "fl x = real_of_int (round_half_even (x / 2 powi (clamped_exponent \<bar>x\<bar> - 52))) *
     2 powi (clamped_exponent \<bar>x\<bar> - 52)"
  by (simp add: fl_def Let_def)

lemma below_next_binade:
  assumes "0 \<le> y"
  shows "y < 2 powi (clamped_exponent y + 1)"
proof (cases "1 \<le> y * 2 powi 1074")
  case True
  have "y < 2 powi (float_exponent y + 1)"
    using True by (rule float_exponent_bounds)
  also have "\<dots> \<le> 2 powi (clamped_exponent y + 1)"
    by (intro power_int_increasing) (simp_all add: clamped_exponent_def)
  finally show ?thesis .
next
  case False
  have m: "(0 :: real) < 2 powi 1074"
    by (rule zero_less_power_int) simp
  have "(2 :: real) powi (- 1074 + 1074) = 2 powi (- 1074) * 2 powi 1074"
    by (rule power_int_add) simp
  moreover have "(2 :: real) powi (- 1074 + 1074) = 1"
    by simp
  ultimately have o: "(1 :: real) = 2 powi (- 1074) * 2 powi 1074"
    by (simp only:)
  have "y * 2 powi 1074 < 1"
    using False by simp
  then have "y * 2 powi 1074 < 2 powi (- 1074) * 2 powi 1074"
    using o by (simp only:)
  then have "y < 2 powi (- 1074)"
    using m by (simp only: mult_less_cancel_right_pos)
  also have "(2 :: real) powi (- 1074) \<le> 2 powi (clamped_exponent y + 1)"
    by (intro power_int_increasing) (simp_all add: clamped_exponent_def)
  finally show ?thesis .
qed

lemma above_binade:
  assumes "- 1022 < clamped_exponent y"
  shows "2 powi (clamped_exponent y) \<le> y"
proof -
  have e: "clamped_exponent y = float_exponent y" "- 1022 < float_exponent y"
    using assms by (simp_all add: clamped_exponent_def max_def split: if_splits)
  have "1 \<le> y * 2 powi 1074"
  proof (rule ccontr)
    assume "\<not> 1 \<le> y * 2 powi 1074"
    then have "\<lfloor>y * 2 powi 1074\<rfloor> \<le> 0"
      by (simp add: floor_le_iff)
    then have "bitlen \<lfloor>y * 2 powi 1074\<rfloor> = 0"
      by (simp only: bitlen_eq_zero_iff)
    moreover have "float_exponent y = bitlen \<lfloor>y * 2 powi 1074\<rfloor> - 1075"
      by (simp add: float_exponent_def power_int_def)
    ultimately show False
      using e(2) by simp
  qed
  then show ?thesis
    unfolding e(1) by (rule float_exponent_bounds)
qed

lemma clamped_exponent_mono:
  assumes "x \<le> y"
  shows "clamped_exponent x \<le> clamped_exponent y"
proof -
  have "x * 2 ^ 1074 \<le> y * 2 ^ 1074"
    using assms by (intro mult_right_mono) simp_all
  then have "\<lfloor>x * 2 ^ 1074\<rfloor> \<le> \<lfloor>y * 2 ^ 1074\<rfloor>"
    by (rule floor_mono)
  then have "bitlen \<lfloor>x * 2 ^ 1074\<rfloor> \<le> bitlen \<lfloor>y * 2 ^ 1074\<rfloor>"
    unfolding bitlen_def by (intro zle_int [THEN iffD2] floorlog_mono nat_mono)
  then show ?thesis
    by (simp add: clamped_exponent_def float_exponent_def)
qed

lemma fl_mono:
  assumes "0 \<le> x" "x \<le> y"
  shows "fl x \<le> fl y"
proof -
  define ex where "ex = clamped_exponent x"
  define ey where "ey = clamped_exponent y"
  have y: "0 \<le> y" using assms by simp
  have q: "(0 :: real) < 2 powi (ex - 52)" "(0 :: real) < 2 powi (ey - 52)"
    by (simp_all add: zero_less_power_int)
  have fx: "fl x = real_of_int (round_half_even (x / 2 powi (ex - 52))) * 2 powi (ex - 52)"
    using assms(1) fl_quantum [of x] by (simp add: ex_def)
  have fy: "fl y = real_of_int (round_half_even (y / 2 powi (ey - 52))) * 2 powi (ey - 52)"
    using y fl_quantum [of y] by (simp add: ey_def)
  have le: "ex \<le> ey"
    unfolding ex_def ey_def using assms(2) by (rule clamped_exponent_mono)
  show ?thesis
  proof (cases "ex = ey")
    case True
    have "x / 2 powi (ey - 52) \<le> y / 2 powi (ey - 52)"
      using assms(2) q(2) by (simp add: divide_right_mono)
    then have "round_half_even (x / 2 powi (ey - 52)) \<le> round_half_even (y / 2 powi (ey - 52))"
      by (rule round_half_even_mono)
    then show ?thesis
      unfolding fx fy True using q(2) by (intro mult_right_mono) simp_all
  next
    case False
    then have lt: "ex < ey" using le by simp
    have s: "(2 :: real) powi (e + 1) = 2 ^ 53 * 2 powi (e - 52)"
      "(2 :: real) powi e = 2 ^ 52 * 2 powi (e - 52)" for e :: int
    proof -
      have "(2 :: real) powi (53 + (e - 52)) = 2 powi 53 * 2 powi (e - 52)"
        by (rule power_int_add) simp
      then show "(2 :: real) powi (e + 1) = 2 ^ 53 * 2 powi (e - 52)"
        by (simp add: algebra_simps)
      have "(2 :: real) powi (52 + (e - 52)) = 2 powi 52 * 2 powi (e - 52)"
        by (rule power_int_add) simp
      then show "(2 :: real) powi e = 2 ^ 52 * 2 powi (e - 52)"
        by simp
    qed
    have "x < 2 ^ 53 * 2 powi (ex - 52)"
      using below_next_binade [OF assms(1)] unfolding ex_def [symmetric] s(1) .
    then have "x / 2 powi (ex - 52) \<le> real_of_int (2 ^ 53)"
      using q(1) by (simp add: field_simps)
    then have "round_half_even (x / 2 powi (ex - 52)) \<le> round_half_even (real_of_int (2 ^ 53))"
      by (rule round_half_even_mono)
    then have "round_half_even (x / 2 powi (ex - 52)) \<le> 2 ^ 53"
      by (simp only: round_half_even_int)
    then have "real_of_int (round_half_even (x / 2 powi (ex - 52))) \<le> real_of_int (2 ^ 53)"
      by (simp only: of_int_le_iff)
    then have "real_of_int (round_half_even (x / 2 powi (ex - 52))) \<le> 2 ^ 53"
      by simp
    then have "fl x \<le> 2 ^ 53 * 2 powi (ex - 52)"
      unfolding fx using q(1) by (intro mult_right_mono) simp_all
    then have a: "fl x \<le> 2 powi (ex + 1)"
      by (simp only: s(1))
    have "- 1022 < clamped_exponent y"
      using lt by (simp add: ex_def ey_def clamped_exponent_def)
    then have "2 powi ey \<le> y"
      unfolding ey_def by (rule above_binade)
    then have "2 ^ 52 * 2 powi (ey - 52) \<le> y"
      by (simp only: s(2) [symmetric])
    then have "real_of_int (2 ^ 52) \<le> y / 2 powi (ey - 52)"
      using q(2) by (simp add: field_simps)
    then have "round_half_even (real_of_int (2 ^ 52)) \<le> round_half_even (y / 2 powi (ey - 52))"
      by (rule round_half_even_mono)
    then have "2 ^ 52 \<le> round_half_even (y / 2 powi (ey - 52))"
      by (simp only: round_half_even_int)
    then have "real_of_int (2 ^ 52) \<le> real_of_int (round_half_even (y / 2 powi (ey - 52)))"
      by (simp only: of_int_le_iff)
    then have "2 ^ 52 \<le> real_of_int (round_half_even (y / 2 powi (ey - 52)))"
      by simp
    then have "2 ^ 52 * 2 powi (ey - 52) \<le> fl y"
      unfolding fy using q(2) by (intro mult_right_mono) simp_all
    then have b: "2 powi ey \<le> fl y"
      by (simp only: s(2) [symmetric])
    have "(2 :: real) powi (ex + 1) \<le> 2 powi ey"
      using lt by (intro power_int_increasing) simp_all
    then show ?thesis
      using a b by linarith
  qed
qed

lemma fl_nonneg: "0 \<le> x \<Longrightarrow> 0 \<le> fl x"
  using fl_mono [of 0 x] by (simp add: fl_zero)

section \<open>The tone curve in doubles\<close>

lemma interior_bounds:
  assumes "0 \<le> y0" "y0 \<le> y1" "x0 < x" "x < x1"
  shows "0 \<le> fl (fl (fl (fl (y1 - y0) / fl (x1 - x0)) * fl (x - x0)) + y0)"
    and "fl (fl (fl (fl (y1 - y0) / fl (x1 - x0)) * fl (x - x0)) + y0) \<le> seg_end (x0, y0) (x1, y1)"
proof -
  define dx where "dx = fl (x1 - x0)"
  define s where "s = fl (fl (y1 - y0) / dx)"
  define t where "t = fl (x - x0)"
  have t0: "0 \<le> t" unfolding t_def using assms(3) by (intro fl_nonneg) simp
  have td: "t \<le> dx" unfolding t_def dx_def using assms(3,4) by (intro fl_mono) simp_all
  have dx0: "0 \<le> dx" using t0 td by simp
  have "0 \<le> fl (y1 - y0)" using assms(2) by (intro fl_nonneg) simp
  then have s0: "0 \<le> s" unfolding s_def using dx0 by (intro fl_nonneg) simp
  have p0: "0 \<le> fl (s * t)" using s0 t0 by (intro fl_nonneg) simp
  have pp: "fl (s * t) \<le> fl (s * dx)"
    using s0 t0 td by (intro fl_mono mult_left_mono) simp_all
  show "0 \<le> fl (fl (fl (fl (y1 - y0) / fl (x1 - x0)) * fl (x - x0)) + y0)"
    using p0 assms(1) unfolding dx_def [symmetric] s_def [symmetric] t_def [symmetric]
    by (intro fl_nonneg) simp
  have "fl (fl (s * t) + y0) \<le> fl (fl (s * dx) + y0)"
    using p0 pp assms(1) by (intro fl_mono) simp_all
  then show "fl (fl (fl (fl (y1 - y0) / fl (x1 - x0)) * fl (x - x0)) + y0) \<le> seg_end (x0, y0) (x1, y1)"
    by (simp add: seg_end_def Let_def dx_def s_def t_def)
qed

lemma rising_hd: "ps \<noteq> [] \<Longrightarrow> rising ps \<Longrightarrow> in_unit (snd (hd ps))"
  by (induction ps rule: rising.induct) simp_all

lemma rising_last: "ps \<noteq> [] \<Longrightarrow> rising ps \<Longrightarrow> in_unit (snd (last ps))"
  by (induction ps rule: rising.induct) simp_all

lemma interp_search_rising:
  assumes "ps \<noteq> []" "rising ps" "fst (hd ps) \<le> x"
  shows "in_unit (interp_search x ps)"
  using assms
proof (induction x ps rule: interp_search.induct)
  case (1 x)
  then show ?case by simp
next
  case (2 x x0 y0)
  then show ?case by simp
next
  case (3 x x0 y0 x1 y1 ps)
  show ?case
  proof (cases "x < x1")
    case True
    show ?thesis
    proof (cases "x0 = x")
      case True
      then show ?thesis using \<open>x < x1\<close> "3.prems" by simp
    next
      case False
      then have lt: "x0 < x" using "3.prems"(3) by simp
      have y: "0 \<le> y0" "y0 \<le> y1" "seg_end (x0, y0) (x1, y1) \<le> 1"
        using "3.prems"(2) by (simp_all add: in_unit_def)
      note b = interior_bounds [OF y(1,2) lt True]
      have "in_unit (fl (fl (fl (fl (y1 - y0) / fl (x1 - x0)) * fl (x - x0)) + y0))"
        unfolding in_unit_def using b y(3) by linarith
      then show ?thesis
        using True False by (simp add: Let_def)
    qed
  next
    case False
    have "in_unit (interp_search x ((x1, y1) # ps))"
      using False "3.prems" by (intro "3.IH") simp_all
    then show ?thesis using False by simp
  qed
qed

lemma interp_elem_rising:
  assumes "ps \<noteq> []" "rising ps"
  shows "in_unit (interp_elem (map fst ps) (map snd ps) x)"
proof (cases "x > last (map fst ps) \<or> x < hd (map fst ps)")
  case True
  then show ?thesis
    using assms rising_hd [OF assms] rising_last [OF assms]
    by (auto simp: interp_elem_def hd_map last_map)
next
  case False
  have "fst (hd ps) \<le> x" using False assms(1) by (simp add: hd_map)
  then have "in_unit (interp_search x ps)"
    using assms by (intro interp_search_rising)
  then show ?thesis
    using False by (simp add: interp_elem_def zip_map_fst_snd)
qed

lemma curve_fun_rising:
  fixes points :: "(real \<times> real) list"
  assumes "points \<noteq> []" "rising (sort_key fst points)"
  shows "in_unit (curve_fun points x)"
proof -
  have "sort_key fst points \<noteq> []" using assms(1) by (metis set_empty set_sort)
  then show ?thesis
    unfolding curve_fun_def using assms(2) by (rule interp_elem_rising)
qed

lemmas fl_evals =
  fl_eval [where k = 52] fl_eval [where k = 53] fl_eval [where k = 54] fl_eval [where k = 55]
  fl_eval [where k = 56] fl_eval [where k = 57] fl_eval [where k = 58]

lemma vintage_rising:
  "rising (sort_key fst (float_points
     [(0.0, 0.05), (0.15, 0.18), (0.5, 0.52), (0.85, 0.87), (1.0, 0.98)]))"
  by (simp add: float_points_def seg_end_def in_unit_def fl_zero fl_evals round_half_even_def
      Let_def)






lemma apply_curve_arr_fun:
  fixes points :: "(real \<times> real) list"
  assumes "points \<noteq> []"
  shows "apply_curve_arr arr points = Inr (map (map (map (curve_fun points))) arr)"
proof -
  have "sort_key fst points \<noteq> []" using assms by (metis set_empty set_sort)
  then show ?thesis by (simp add: apply_curve_arr_def np_interp_arr_def curve_fun_def Let_def)
qed

lemma map2_same_row:
  "map2 g row (map h row) = map (\<lambda>x. g x (h x)) row"
  by (induction row) simp_all

lemma map2_same_plane:
  "map2 (map2 g) plane (map (map h) plane) = map (map (\<lambda>x. g x (h x))) plane"
  by (induction plane) (simp_all add: map2_same_row)

lemma map2_same_grid:
  "map2 (map2 (map2 g)) lut (map (map (map h)) lut) = map (map (map (\<lambda>x. g x (h x)))) lut"
  by (induction lut) (simp_all add: map2_same_plane)

lemma set_channel_map:
  "set_channel c lut (map (map (map f)) (channel c lut)) =
   map_grid (\<lambda>cell. set_ch c cell (f (get_ch c cell))) lut"
proof -
  have "map (map (map f)) (channel c lut) = map (map (map (f \<circ> get_ch c))) lut"
    by (simp add: channel_def)
  then show ?thesis
    by (simp add: set_channel_def map_grid_def map2_same_grid)
qed

lemma three_channels:
  "set_ch 2 (set_ch (Suc 0) (set_ch 0 cell (f (get_ch 0 cell)))
      (f (get_ch (Suc 0) (set_ch 0 cell (f (get_ch 0 cell))))))
      (f (get_ch 2 (set_ch (Suc 0) (set_ch 0 cell (f (get_ch 0 cell)))
      (f (get_ch (Suc 0) (set_ch 0 cell (f (get_ch 0 cell)))))))) = map_rgb f cell"
  by (cases cell) simp

lemma curve_channels_map:
  fixes points :: "(real \<times> real) list"
  assumes "points \<noteq> []"
  shows "curve_channels points lut = Inr (map_grid (map_rgb (curve_fun points)) lut)"
proof -
  have "curve_channels points lut =
      Inr (map_grid (\<lambda>cell. set_ch 2 cell (curve_fun points (get_ch 2 cell)))
        (map_grid (\<lambda>cell. set_ch 1 cell (curve_fun points (get_ch 1 cell)))
          (map_grid (\<lambda>cell. set_ch 0 cell (curve_fun points (get_ch 0 cell))) lut)))"
    by (simp add: curve_channels_def apply_curve_arr_fun [OF assms] set_channel_map)
  also have "\<dots> = Inr (map_grid (map_rgb (curve_fun points)) lut)"
    by (simp add: map_grid_def o_def three_channels)
  finally show ?thesis .
qed

lemma curve_channels_rising:
  fixes points :: "(real \<times> real) list"
  assumes "points \<noteq> []" "rising (sort_key fst points)" "cubic n lut"
  shows "\<exists>lut'. curve_channels points lut = Inr lut' \<and> grid_in_unit lut' \<and> cubic n lut'"
proof -
  have "cell_in_unit (map_rgb (curve_fun points) c)" for c
    using curve_fun_rising [OF assms(1,2)] by (cases c) simp
  then have "grid_in_unit (map_grid (map_rgb (curve_fun points)) lut)"
    by (rule map_grid_in_unit)
  moreover have "cubic n (map_grid (map_rgb (curve_fun points)) lut)"
    using assms(3) by (simp add: cubic_def map_grid_def list_all_iff)
  ultimately show ?thesis
    using curve_channels_map [OF assms(1)] by simp
qed


lemma float_points_nonempty: "float_points (p # ps) \<noteq> []"
  by (simp add: float_points_def)

section \<open>Every operator and every preset stays in range\<close>

lemma cubic_map_grid: "cubic n lut \<Longrightarrow> cubic n (map_grid f lut)"
  by (simp add: cubic_def map_grid_def list_all_iff)


lemma operators_cubic:
  assumes "cubic n lut"
  shows "cubic n (adjust_exposure lut ev)"
  "cubic n (adjust_contrast lut amount)"
  "cubic n (adjust_saturation lut amount)"
  "cubic n (adjust_vibrance lut amount)"
  "cubic n (adjust_highlights lut amount)"
  "cubic n (adjust_shadows lut amount)"
  "cubic n (adjust_whites lut amount)"
  "cubic n (adjust_blacks lut amount)"
  "cubic n (adjust_temperature lut amount)"
  "cubic n (adjust_tint lut amount)"
  "cubic n (lift_blacks lut amount)"
  "cubic n (hsl_adjust lut rng hs ss ls)"
  "cubic n (split_tone lut shadow_rgb highlight_rgb balance)"
  using assms
  by (simp_all add: cubic_map_grid adjust_exposure_def adjust_contrast_def adjust_saturation_def
      adjust_vibrance_def adjust_highlights_def adjust_shadows_def adjust_whites_def
      adjust_blacks_def adjust_temperature_def adjust_tint_def lift_blacks_def hsl_adjust_def
      split_tone_def)

lemma identity_33: "\<exists>lut. identity_lut LUT_SIZE = Inr lut \<and> cubic 33 lut"
  using identity_lut_ok [of 33] by (auto simp: LUT_SIZE_def)

lemma vintage_ok: "\<exists>lut. generate_vintage = Inr lut \<and> grid_in_unit lut \<and> cubic 33 lut"
proof -
  obtain lut0 where l: "identity_lut LUT_SIZE = Inr lut0" "cubic 33 lut0"
    using identity_33 by auto
  show ?thesis
    unfolding generate_vintage_def l(1) sum.case Let_def
    by (rule curve_channels_rising [OF float_points_nonempty vintage_rising])
      (simp add: operators_cubic l(2))
qed









section \<open>The format of the file\<close>

lemma grid_in_unit_nth:
  assumes "cubic N lut" "grid_in_unit lut" "b < N" "g < N" "r < N"
  shows "cell_in_unit (lut ! b ! g ! r)"
  using assms by (simp add: cubic_iff grid_in_unit_def list_all_length)

lemma cell_prints:
  assumes "cell_in_unit c"
  shows "case c of (x, y, z) \<Rightarrow>
           prints_6f x (format_6f x) \<and> prints_6f y (format_6f y) \<and> prints_6f z (format_6f z)"
  using assms by (cases c) (simp add: in_unit_def format_6f_prints)

lemma vintage_file:
  "\<exists>v. generate_vintage = Inr v \<and> grid_in_unit v \<and>
     write_cube v ''Vintage'' =
       Inr (unlines ([''TITLE '' @ [CHR 0x22] @ ''Vintage'' @ [CHR 0x22], ''LUT_3D_SIZE 33'',
              ''DOMAIN_MIN 0.0 0.0 0.0'', ''DOMAIN_MAX 1.0 1.0 1.0'', []] @ spec_data v 33)) \<and>
     length (spec_data v 33) = 35937"
proof -
  obtain v where v: "generate_vintage = Inr v" "grid_in_unit v" "cubic 33 v"
    using vintage_ok by blast
  have s: "show_nat 33 = ''33''"
    by (simp add: show_nat.simps digit_char_def)
  have "write_cube v ''Vintage'' = Inr (unlines (spec_header ''Vintage'' 33 @ spec_data v 33))"
    using v(3) by (rule write_cube_lines)
  then have w: "write_cube v ''Vintage'' =
       Inr (unlines ([''TITLE '' @ [CHR 0x22] @ ''Vintage'' @ [CHR 0x22], ''LUT_3D_SIZE 33'',
              ''DOMAIN_MIN 0.0 0.0 0.0'', ''DOMAIN_MAX 1.0 1.0 1.0'', []] @ spec_data v 33))"
    by (simp add: spec_header_def s)
  have l: "length (spec_data v 33) = 35937"
    by (simp add: spec_data_length)
  show ?thesis
    using v(1,2) w l by (intro exI [of _ v] conjI)
qed

text \<open>
  Claim C4. For a grid of shape \<open>(N, N, N, 3)\<close> with cells in \<open>[0,1]\<close> and any title, the
  encoder returns the file made of the lines \<open>TITLE "<title>"\<close>, \<open>LUT_3D_SIZE <N>\<close>,
  \<open>DOMAIN_MIN 0.0 0.0 0.0\<close>, \<open>DOMAIN_MAX 1.0 1.0 1.0\<close> and an empty line, followed by
  exactly \<open>N\<^sup>3\<close> data lines, every line ended by a line feed; data line \<open>k\<close> holds the three
  values of the cell at blue index \<open>k div N\<^sup>2\<close>, green index \<open>k div N mod N\<close> and red index
  \<open>k mod N\<close>, separated by spaces, so the red index varies fastest and the blue index
  slowest. The size is written in decimal digits that read back as \<open>N\<close>, and every value
  of a cell is written with six digits after the point and reads back to within half a
  unit of the sixth decimal. The Vintage preset returns a grid whose file has the header
  \<open>TITLE "Vintage"\<close>, \<open>LUT_3D_SIZE 33\<close> and \<open>35937\<close> data lines.
\<close>

theorem write_cube_format:
  assumes "cubic N lut" "grid_in_unit lut"
  shows "write_cube lut title = Inr (unlines (spec_header title N @ spec_data lut N)) \<and>
         length (spec_data lut N) = N ^ 3 \<and>
         decode_nat (show_nat N) = N \<and> list_all is_digit (show_nat N) \<and>
         (b < N \<and> g < N \<and> r < N \<longrightarrow>
            (case lut ! b ! g ! r of (x, y, z) \<Rightarrow>
               prints_6f x (format_6f x) \<and> prints_6f y (format_6f y) \<and>
               prints_6f z (format_6f z))) \<and>
         (\<exists>v. generate_vintage = Inr v \<and> grid_in_unit v \<and>
            write_cube v ''Vintage'' =
              Inr (unlines ([''TITLE '' @ [CHR 0x22] @ ''Vintage'' @ [CHR 0x22],
                     ''LUT_3D_SIZE 33'', ''DOMAIN_MIN 0.0 0.0 0.0'',
                     ''DOMAIN_MAX 1.0 1.0 1.0'', []] @ spec_data v 33)) \<and>
            length (spec_data v 33) = 35937)"
proof (intro conjI impI)
  show "write_cube lut title = Inr (unlines (spec_header title N @ spec_data lut N))"
    using assms(1) by (rule write_cube_lines)
  show "length (spec_data lut N) = N ^ 3"
    by (rule spec_data_length)
  show "decode_nat (show_nat N) = N"
    by (rule decode_show_nat)
  show "list_all is_digit (show_nat N)"
    by (rule show_nat_digits)
  show "case lut ! b ! g ! r of (x, y, z) \<Rightarrow>
               prints_6f x (format_6f x) \<and> prints_6f y (format_6f y) \<and>
               prints_6f z (format_6f z)"
    if "b < N \<and> g < N \<and> r < N"
    using that by (intro cell_prints grid_in_unit_nth [OF assms]) simp_all
  show "\<exists>v. generate_vintage = Inr v \<and> grid_in_unit v \<and>
            write_cube v ''Vintage'' =
              Inr (unlines ([''TITLE '' @ [CHR 0x22] @ ''Vintage'' @ [CHR 0x22],
                     ''LUT_3D_SIZE 33'', ''DOMAIN_MIN 0.0 0.0 0.0'',
                     ''DOMAIN_MAX 1.0 1.0 1.0'', []] @ spec_data v 33)) \<and>
            length (spec_data v 33) = 35937"
    by (rule vintage_file)
qed

lemma format_6f_examples:
  "format_6f 0 = ''0.000000''"
  "format_6f (1 / 4) = ''0.250000''"
  "format_6f (1 / 2) = ''0.500000''"
  "format_6f 1 = ''1.000000''"
proof -
  have r: "round_half_even (\<bar>0\<bar> * 10 ^ 6) = 0"
    "round_half_even (\<bar>1 / 4\<bar> * 10 ^ 6) = 250000"
    "round_half_even (\<bar>1 / 2\<bar> * 10 ^ 6) = 500000"
    "round_half_even (\<bar>1\<bar> * 10 ^ 6) = 1000000"
    by (simp_all add: round_half_even_def Let_def)
  have s: "show_nat 250000 = ''250000''" "show_nat 500000 = ''500000''"
    "show_nat 0 = ''0''" "show_nat (Suc 0) = ''1''"
    by (simp_all add: show_nat.simps digit_char_def)
  have p: "replicate 5 (CHR ''0'') = ''00000''"
    by (simp add: eval_nat_numeral)
  show "format_6f 0 = ''0.000000''"
    unfolding format_6f_def r Let_def by (simp add: s p)
  show "format_6f (1 / 4) = ''0.250000''"
    unfolding format_6f_def r Let_def by (simp add: s)
  show "format_6f (1 / 2) = ''0.500000''"
    unfolding format_6f_def r Let_def by (simp add: s)
  show "format_6f 1 = ''1.000000''"
    unfolding format_6f_def r Let_def by (simp add: s p)
qed

theorem write_cube_format_witness:
  "cubic 2 [[[(0, 0, 0), (1, 0, 0)], [(0, 1 / 2, 0), (1, 1 / 2, 0)]],
            [[(0, 0, 1 / 4), (1, 0, 1 / 4)], [(0, 1 / 2, 1 / 4), (1, 1 / 2, 1 / 4)]]] \<and>
   grid_in_unit [[[(0, 0, 0), (1, 0, 0)], [(0, 1 / 2, 0), (1, 1 / 2, 0)]],
            [[(0, 0, 1 / 4), (1, 0, 1 / 4)], [(0, 1 / 2, 1 / 4), (1, 1 / 2, 1 / 4)]]] \<and>
   write_cube [[[(0, 0, 0), (1, 0, 0)], [(0, 1 / 2, 0), (1, 1 / 2, 0)]],
            [[(0, 0, 1 / 4), (1, 0, 1 / 4)], [(0, 1 / 2, 1 / 4), (1, 1 / 2, 1 / 4)]]] ''T'' =
     Inr (''TITLE '' @ [CHR 0x22] @ ''T'' @ [CHR 0x22, CHR 0x0A] @
          ''LUT_3D_SIZE 2'' @ [CHR 0x0A] @
          ''DOMAIN_MIN 0.0 0.0 0.0'' @ [CHR 0x0A] @
          ''DOMAIN_MAX 1.0 1.0 1.0'' @ [CHR 0x0A] @
          [CHR 0x0A] @
          ''0.000000 0.000000 0.000000'' @ [CHR 0x0A] @
          ''1.000000 0.000000 0.000000'' @ [CHR 0x0A] @
          ''0.000000 0.500000 0.000000'' @ [CHR 0x0A] @
          ''1.000000 0.500000 0.000000'' @ [CHR 0x0A] @
          ''0.000000 0.000000 0.250000'' @ [CHR 0x0A] @
          ''1.000000 0.000000 0.250000'' @ [CHR 0x0A] @
          ''0.000000 0.500000 0.250000'' @ [CHR 0x0A] @
          ''1.000000 0.500000 0.250000'' @ [CHR 0x0A]) \<and>
   length (spec_data [[[(0, 0, 0), (1, 0, 0)], [(0, 1 / 2, 0), (1, 1 / 2, 0)]],
            [[(0, 0, 1 / 4), (1, 0, 1 / 4)], [(0, 1 / 2, 1 / 4), (1, 1 / 2, 1 / 4)]]] 2) = 8 \<and>
   prints_6f (1 / 4) ''0.250000''"
proof -
  let ?lut = "[[[(0, 0, 0), (1, 0, 0)], [(0, 1 / 2, 0), (1, 1 / 2, 0)]],
            [[(0, 0, 1 / 4), (1, 0, 1 / 4)], [(0, 1 / 2, 1 / 4), (1, 1 / 2, 1 / 4)]]] :: grid"
  have c: "cubic 2 ?lut"
    by (simp add: cubic_def)
  have u: "grid_in_unit ?lut"
    by (simp add: grid_in_unit_def in_unit_def)
  have n: "show_nat 2 = ''2''"
    by (simp add: show_nat.simps digit_char_def)
  have i: "[0..<8] = [0, 1, 2, 3, 4, 5, 6, 7]"
    by (simp add: upt_rec)
  have d: "spec_data ?lut 2 =
      [''0.000000 0.000000 0.000000'', ''1.000000 0.000000 0.000000'',
       ''0.000000 0.500000 0.000000'', ''1.000000 0.500000 0.000000'',
       ''0.000000 0.000000 0.250000'', ''1.000000 0.000000 0.250000'',
       ''0.000000 0.500000 0.250000'', ''1.000000 0.500000 0.250000'']"
    by (simp add: spec_data_def i format_6f_examples)
  note t = write_cube_format [OF c u, of "''T''" 1 1 1]
  have w: "write_cube ?lut ''T'' = Inr (unlines (spec_header ''T'' 2 @ spec_data ?lut 2))"
    using t by (rule conjunct1)
  have l: "length (spec_data ?lut 2) = 8"
    using t [THEN conjunct2, THEN conjunct1] by simp
  have k: "prints_6f (1 / 4) ''0.250000''"
    using t [THEN conjunct2, THEN conjunct2, THEN conjunct2, THEN conjunct2, THEN conjunct1]
    by (simp add: format_6f_examples)
  have f: "write_cube ?lut ''T'' =
     Inr (''TITLE '' @ [CHR 0x22] @ ''T'' @ [CHR 0x22, CHR 0x0A] @
          ''LUT_3D_SIZE 2'' @ [CHR 0x0A] @
          ''DOMAIN_MIN 0.0 0.0 0.0'' @ [CHR 0x0A] @
          ''DOMAIN_MAX 1.0 1.0 1.0'' @ [CHR 0x0A] @
          [CHR 0x0A] @
          ''0.000000 0.000000 0.000000'' @ [CHR 0x0A] @
          ''1.000000 0.000000 0.000000'' @ [CHR 0x0A] @
          ''0.000000 0.500000 0.000000'' @ [CHR 0x0A] @
          ''1.000000 0.500000 0.000000'' @ [CHR 0x0A] @
          ''0.000000 0.000000 0.250000'' @ [CHR 0x0A] @
          ''1.000000 0.000000 0.250000'' @ [CHR 0x0A] @
          ''0.000000 0.500000 0.250000'' @ [CHR 0x0A] @
          ''1.000000 0.500000 0.250000'' @ [CHR 0x0A])"
    unfolding w d by (simp add: unlines_def spec_header_def n)
  show ?thesis
    using c u f l k by blast
qed

end
